theory Spec2Isabelle
  imports Complex_Main "HOL-Library.Char_ord" "HOL-Library.List_Lexorder"
    "HOL-Library.Product_Lexorder" "HOL-Library.Log_Nat"
begin

section \<open>The event voting application \<^verbatim>\<open>app.py\<close>\<close>

text \<open>
  The application is one Flask module over a single SQLite table \<^verbatim>\<open>ratings\<close>.
  The embedding keeps the handlers of \<^verbatim>\<open>app.py\<close> as functions over an explicit
  table state.

  Conventions of the model.
  \<^item> A Python \<^verbatim>\<open>str\<close> is a \<^typ>\<open>string\<close>; a \<^typ>\<open>char\<close> stands for the code point
    of the same number, so the model covers texts whose code points are below 256.
  \<^item> A Python exception is a value of \<^verbatim>\<open>pyerr\<close>; a function that may raise
    returns \<^verbatim>\<open>pyerr + 'a\<close>.
  \<^item> A parsed JSON document is a value of \<^verbatim>\<open>json\<close>. A finite JSON number with a
    fraction or an exponent (a Python \<^verbatim>\<open>float\<close>) carries its exact value as a
    rational.
  \<^item> A finite IEEE double is the rational it denotes; \<open>to_double\<close> rounds a rational
    to the nearest double (53 significant bits, a tie to the even significand). The
    range of the exponent is taken as unbounded: no overflow, no subnormal numbers.
  \<^item> The default limit of 4300 digits that CPython 3.11 puts on \<^verbatim>\<open>int(str)\<close>
    is interpreter configuration and is left out.
\<close>

subsection \<open>Python values and primitives\<close>

datatype pyerr = TypeError | ValueError | OverflowError | AttributeError | IndexError
  | IntegrityError

datatype json =
    JNull
  | JBool bool
  | JInt int
  | JFloat rat
  | JNaN
  | JInf
  | JStr string
  | JArr "json list"
  | JObj "(string \<times> json) list"

text \<open>Python truthiness, as \<^verbatim>\<open>if not s\<close> and \<^verbatim>\<open>x or y\<close> use it. NaN and the
  infinities are truthy.\<close>

fun truthy :: "json \<Rightarrow> bool" where
  "truthy JNull = False"
| "truthy (JBool b) = b"
| "truthy (JInt n) = (n \<noteq> 0)"
| "truthy (JFloat x) = (x \<noteq> 0)"
| "truthy JNaN = True"
| "truthy JInf = True"
| "truthy (JStr s) = (s \<noteq> [])"
| "truthy (JArr xs) = (xs \<noteq> [])"
| "truthy (JObj kvs) = (kvs \<noteq> [])"

text \<open>\<^verbatim>\<open>x or y\<close>.\<close>

definition py_or :: "json \<Rightarrow> json \<Rightarrow> json" where
  "py_or x y = (if truthy x then x else y)"

text \<open>\<^verbatim>\<open>data.get(key)\<close>: the value of a dict, \<^verbatim>\<open>None\<close> for a missing key; any
  other truthy JSON value has no attribute \<^verbatim>\<open>get\<close>. A \<open>JObj\<close> lists the items of the
  dict, each key once.\<close>

fun dict_get :: "json \<Rightarrow> string \<Rightarrow> pyerr + json" where
  "dict_get (JObj kvs) k = (case map_of kvs k of None \<Rightarrow> Inr JNull | Some v \<Rightarrow> Inr v)"
| "dict_get _ k = Inl AttributeError"

text \<open>\<^verbatim>\<open>str.isspace\<close> on one code point below 256: TAB, LF, VT, FF, CR, the four
  separators 0x1C to 0x1F, SPACE, NEL (0x85) and NBSP (0xA0).\<close>

definition is_space :: "char \<Rightarrow> bool" where
  "is_space c = (c \<in> set [CHR 0x09, CHR 0x0A, CHR 0x0B, CHR 0x0C, CHR 0x0D, CHR 0x1C,
     CHR 0x1D, CHR 0x1E, CHR 0x1F, CHR 0x20, CHR 0x85, CHR 0xA0])"

text \<open>\<^verbatim>\<open>s.strip()\<close>.\<close>

definition py_strip :: "string \<Rightarrow> string" where
  "py_strip s = rev (dropWhile is_space (rev (dropWhile is_space s)))"

text \<open>\<^verbatim>\<open>s.split()\<close>: the maximal runs of non-whitespace, scanned left to right;
  \<open>cur\<close> holds the current run, reversed.\<close>

fun split_scan :: "string \<Rightarrow> string \<Rightarrow> string list" where
  "split_scan cur [] = (if cur = [] then [] else [rev cur])"
| "split_scan cur (c # cs) =
     (if is_space c then (if cur = [] then split_scan [] cs else rev cur # split_scan [] cs)
      else split_scan (c # cur) cs)"

definition py_split :: "string \<Rightarrow> string list" where
  "py_split s = split_scan [] s"

text \<open>\<^verbatim>\<open>xs[i]\<close> on a Python list: a negative index counts from the end, an index
  out of range raises.\<close>

definition py_index :: "'a list \<Rightarrow> int \<Rightarrow> pyerr + 'a" where
  "py_index xs i =
     (if 0 \<le> i \<and> i < int (length xs) then Inr (xs ! nat i)
      else if i < 0 \<and> - int (length xs) \<le> i then Inr (xs ! nat (int (length xs) + i))
      else Inl IndexError)"

subsection \<open>Configuration\<close>

definition ENTRANTS :: "string list" where
  "ENTRANTS = [''Javier'', ''Lindsay'', ''Yesenia'', ''Bryan'', ''Viviana'', ''Bernie'',
     ''Rogelio'', ''Daniella'', ''Colleen'', ''Justin'', ''Paige'', ''Nic'', ''Martha'',
     ''Steve'']"

subsection \<open>\<^verbatim>\<open>sanitize_one_word\<close>\<close>

text \<open>
  \<^verbatim>\<open>
  def sanitize_one_word(s):
      if not s:
          return None
      s = (s or "").strip()
      if not s:
          return None
      first = s.split()[0][:20]
      return first
  \<close>
  The argument is whatever the payload holds under \<^verbatim>\<open>one_word\<close>; only a string has
  \<^verbatim>\<open>strip\<close>.
\<close>

definition sanitize_one_word :: "json \<Rightarrow> pyerr + string option" where
  "sanitize_one_word s =
     (if \<not> truthy s then Inr None
      else case py_or s (JStr []) of
        JStr t \<Rightarrow>
          (let t' = py_strip t in
           if t' = [] then Inr None
           else case py_split t' of
             [] \<Rightarrow> Inl IndexError
           | w # _ \<Rightarrow> Inr (Some (take 20 w)))
      | _ \<Rightarrow> Inl AttributeError)"

text \<open>The normalisation as the specification words it: trim; absent when nothing is
  left; otherwise the first whitespace-delimited token, cut to 20 characters.\<close>

definition trim_spec :: "string \<Rightarrow> string" where
  "trim_spec s = rev (dropWhile is_space (rev (dropWhile is_space s)))"

definition first_token_spec :: "string \<Rightarrow> string" where
  "first_token_spec s = takeWhile (\<lambda>c. \<not> is_space c) (dropWhile is_space s)"

definition one_word_spec :: "string \<Rightarrow> string option" where
  "one_word_spec s =
     (if trim_spec s = [] then None else Some (take 20 (first_token_spec (trim_spec s))))"

subsection \<open>\<^verbatim>\<open>int(...)\<close>\<close>

text \<open>
  \<^verbatim>\<open>int(s)\<close> on a string: CPython first turns every non-ASCII whitespace (here NEL and
  NBSP) into a blank, then skips the C whitespace (TAB, LF, VT, FF, CR, SPACE) on both
  sides, reads an optional sign and a run of decimal digits in which single underscores
  may separate digits, and raises \<^verbatim>\<open>ValueError\<close> on anything else. The separators
  0x1C to 0x1F are whitespace for \<^verbatim>\<open>strip\<close> but not for \<^verbatim>\<open>int\<close>.
\<close>

definition is_int_space :: "char \<Rightarrow> bool" where
  "is_int_space c = (c \<in> set [CHR 0x09, CHR 0x0A, CHR 0x0B, CHR 0x0C, CHR 0x0D,
     CHR 0x20, CHR 0x85, CHR 0xA0])"

definition digit_value :: "char \<Rightarrow> nat option" where
  "digit_value c = map_of (zip ''0123456789'' [0, 1, 2, 3, 4, 5, 6, 7, 8, 9]) c"

definition is_digit :: "char \<Rightarrow> bool" where
  "is_digit c = (digit_value c \<noteq> None)"

definition digits_value :: "string \<Rightarrow> nat" where
  "digits_value ds = foldl (\<lambda>acc c. 10 * acc + the (digit_value c)) 0 (filter is_digit ds)"

fun no_double_underscore :: "string \<Rightarrow> bool" where
  "no_double_underscore (a # b # cs) =
     (\<not> (a = CHR ''_'' \<and> b = CHR ''_'') \<and> no_double_underscore (b # cs))"
| "no_double_underscore _ = True"

definition py_int_str :: "string \<Rightarrow> pyerr + int" where
  "py_int_str s =
     (let t = dropWhile is_int_space s;
          signed = (t \<noteq> [] \<and> (hd t = CHR ''+'' \<or> hd t = CHR ''-''));
          negative = (t \<noteq> [] \<and> hd t = CHR ''-'');
          u = (if signed then tl t else t);
          body = takeWhile (\<lambda>c. is_digit c \<or> c = CHR ''_'') u;
          rest = dropWhile (\<lambda>c. is_digit c \<or> c = CHR ''_'') u
      in if body = [] \<or> hd body = CHR ''_'' \<or> last body = CHR ''_''
            \<or> \<not> no_double_underscore body \<or> \<not> list_all is_int_space rest
         then Inl ValueError
         else Inr ((if negative then - 1 else 1) * int (digits_value body)))"

text \<open>\<^verbatim>\<open>int(x)\<close> on a float truncates toward zero.\<close>

definition truncate_rat :: "rat \<Rightarrow> int" where
  "truncate_rat x = (if 0 \<le> x then \<lfloor>x\<rfloor> else \<lceil>x\<rceil>)"

text \<open>\<^verbatim>\<open>int(v)\<close> on a JSON value: \<^verbatim>\<open>None\<close>, lists and dicts raise
  \<^verbatim>\<open>TypeError\<close>, NaN raises \<^verbatim>\<open>ValueError\<close>, an infinity \<^verbatim>\<open>OverflowError\<close>;
  a bool is the integer 0 or 1.\<close>

fun py_int :: "json \<Rightarrow> pyerr + int" where
  "py_int JNull = Inl TypeError"
| "py_int (JBool b) = Inr (if b then 1 else 0)"
| "py_int (JInt n) = Inr n"
| "py_int (JFloat x) = Inr (truncate_rat x)"
| "py_int JNaN = Inl ValueError"
| "py_int JInf = Inl OverflowError"
| "py_int (JStr s) = py_int_str s"
| "py_int (JArr xs) = Inl TypeError"
| "py_int (JObj kvs) = Inl TypeError"

text \<open>Sequencing of computations that may raise.\<close>

definition bind_err :: "pyerr + 'a \<Rightarrow> ('a \<Rightarrow> pyerr + 'b) \<Rightarrow> pyerr + 'b" where
  "bind_err m f = (case m of Inl e \<Rightarrow> Inl e | Inr x \<Rightarrow> f x)"

fun map_err :: "('a \<Rightarrow> pyerr + 'b) \<Rightarrow> 'a list \<Rightarrow> pyerr + 'b list" where
  "map_err f [] = Inr []"
| "map_err f (x # xs) =
     (case f x of
        Inl e \<Rightarrow> Inl e
      | Inr y \<Rightarrow> (case map_err f xs of Inl e \<Rightarrow> Inl e | Inr ys \<Rightarrow> Inr (y # ys)))"

subsection \<open>The table \<^verbatim>\<open>ratings\<close>\<close>

text \<open>
  One row of the table created by \<^verbatim>\<open>init_db\<close>. The nullable text columns are
  options. \<^verbatim>\<open>created_at\<close> is the text \<^verbatim>\<open>CURRENT_TIMESTAMP\<close> gave at the insert.
\<close>

record rating =
  row_id :: int
  entrant_index :: int
  taste :: int
  presentation :: int
  easy :: int
  judge :: "string option"
  device_id :: "string option"
  one_word :: "string option"
  created_at :: string

text \<open>The database: the rows in rowid order, and the counter that
  \<^verbatim>\<open>AUTOINCREMENT\<close> keeps in \<^verbatim>\<open>sqlite_sequence\<close>.\<close>

record db =
  ratings :: "rating list"
  seq :: int

definition init_db :: db where
  "init_db = \<lparr>ratings = [], seq = 0\<rparr>"

text \<open>The rows a statement with \<^verbatim>\<open>entrant_index=? AND device_id=?\<close> touches; they
  are also the rows the \<^verbatim>\<open>UNIQUE (entrant_index, device_id)\<close> constraint compares.\<close>

definition key_match :: "int \<Rightarrow> string \<Rightarrow> rating \<Rightarrow> bool" where
  "key_match e d r = (entrant_index r = e \<and> device_id r = Some d)"

definition score_ok :: "int \<Rightarrow> bool" where
  "score_ok v = (1 \<le> v \<and> v \<le> 5)"

text \<open>
  The statement of \<^verbatim>\<open>api_rate\<close>:
  \<^verbatim>\<open>
  INSERT INTO ratings (entrant_index, taste, presentation, easy, judge, device_id, one_word)
  VALUES (?, ?, ?, ?, ?, ?, ?)
  ON CONFLICT(entrant_index, device_id) DO UPDATE SET
      taste=excluded.taste, presentation=excluded.presentation, easy=excluded.easy,
      judge=excluded.judge, one_word=excluded.one_word
  \<close>
  A \<^verbatim>\<open>CHECK\<close> that fails raises \<^verbatim>\<open>IntegrityError\<close>. SQLite draws a new rowid from
  \<^verbatim>\<open>sqlite_sequence\<close> before it finds the conflict, so the counter advances on an
  update too. \<open>now\<close> is the clock's reading.
\<close>

definition upsert ::
  "db \<Rightarrow> int \<Rightarrow> int \<Rightarrow> int \<Rightarrow> int \<Rightarrow> string option \<Rightarrow> string \<Rightarrow> string option \<Rightarrow> string
   \<Rightarrow> pyerr + db" where
  "upsert d e t p ea j dev w now =
     (if \<not> (score_ok t \<and> score_ok p \<and> score_ok ea) then Inl IntegrityError
      else if filter (key_match e dev) (ratings d) \<noteq> [] then
        Inr (d\<lparr>ratings :=
                 map (\<lambda>r. if key_match e dev r
                          then r\<lparr>taste := t, presentation := p, easy := ea, judge := j,
                                 one_word := w\<rparr>
                          else r) (ratings d),
               seq := seq d + 1\<rparr>)
      else
        Inr (d\<lparr>ratings := ratings d @
                 [\<lparr>row_id = seq d + 1, entrant_index = e, taste = t, presentation = p,
                   easy = ea, judge = j, device_id = Some dev, one_word = w,
                   created_at = now\<rparr>],
               seq := seq d + 1\<rparr>))"

subsection \<open>Requests\<close>

text \<open>What a handler answers: a JSON body with status 200, a JSON error with status
  400, or an exception nobody caught.\<close>

datatype 'a response = Ok200 'a | Err400 string | Uncaught pyerr

text \<open>\<^verbatim>\<open>request.cookies.get("device_id") or "anon"\<close>.\<close>

definition device_id_from_request :: "string option \<Rightarrow> string" where
  "device_id_from_request cookie =
     (case cookie of None \<Rightarrow> ''anon'' | Some c \<Rightarrow> if c = [] then ''anon'' else c)"

text \<open>\<^verbatim>\<open>(data.get("judge") or "").strip()[:50] or None\<close>.\<close>

definition clean_judge :: "json \<Rightarrow> pyerr + string option" where
  "clean_judge v =
     (case py_or v (JStr []) of
        JStr t \<Rightarrow> (let u = take 50 (py_strip t) in Inr (if u = [] then None else Some u))
      | _ \<Rightarrow> Inl AttributeError)"

text \<open>The \<^verbatim>\<open>try\<close> block of \<^verbatim>\<open>api_rate\<close>, in its order of evaluation; the
  result holds entrant_index, taste, presentation, easy, judge and one_word.\<close>

definition parse_rate ::
  "json \<Rightarrow> pyerr + (int \<times> int \<times> int \<times> int \<times> string option \<times> string option)" where
  "parse_rate data =
     bind_err (bind_err (dict_get data ''entrant_index'') py_int) (\<lambda>e.
     bind_err (bind_err (dict_get data ''taste'') py_int) (\<lambda>t.
     bind_err (bind_err (dict_get data ''presentation'') py_int) (\<lambda>p.
     bind_err (bind_err (dict_get data ''easy'') py_int) (\<lambda>ea.
     bind_err (bind_err (dict_get data ''judge'') clean_judge) (\<lambda>j.
     bind_err (bind_err (dict_get data ''one_word'') sanitize_one_word) (\<lambda>w.
     Inr (e, t, p, ea, j, w)))))))"

text \<open>\<^verbatim>\<open>request.get_json(silent=True) or {}\<close>; \<open>body\<close> is what \<^verbatim>\<open>get_json\<close>
  returns, \<open>None\<close> when the body is not JSON.\<close>

definition request_data :: "json option \<Rightarrow> json" where
  "request_data body = (case body of None \<Rightarrow> JObj [] | Some b \<Rightarrow> py_or b (JObj []))"

text \<open>\<^verbatim>\<open>api_rate\<close>. \<open>cookie\<close> is the \<^verbatim>\<open>device_id\<close> cookie, \<open>now\<close> the clock's
  reading.\<close>

definition api_rate :: "db \<Rightarrow> json option \<Rightarrow> string option \<Rightarrow> string \<Rightarrow> db \<times> unit response" where
  "api_rate d body cookie now =
     (let data = request_data body
      in case parse_rate data of
           Inl _ \<Rightarrow> (d, Err400 ''Invalid payload'')
         | Inr (e, t, p, ea, j, w) \<Rightarrow>
             if \<not> (0 \<le> e \<and> e < int (length ENTRANTS))
             then (d, Err400 ''Invalid entrant'')
             else if list_ex (\<lambda>v. v < 1 \<or> v > 5) [t, p, ea]
             then (d, Err400 ''Scores must be 1 to 5'')
             else case upsert d e t p ea j (device_id_from_request cookie) w now of
                    Inl err \<Rightarrow> (d, Uncaught err)
                  | Inr d' \<Rightarrow> (d', Ok200 ()))"

text \<open>
  \<^verbatim>\<open>api_my_rating\<close>. \<open>arg\<close> is the query parameter \<^verbatim>\<open>entrant_index\<close>, with
  \<^verbatim>\<open>"-1"\<close> as its default; the answer carries taste, presentation, easy, judge and
  one_word of the row \<^verbatim>\<open>fetchone\<close> returns.
\<close>

definition api_my_rating ::
  "db \<Rightarrow> string option \<Rightarrow> string option
   \<Rightarrow> (int \<times> int \<times> int \<times> string option \<times> string option) option response" where
  "api_my_rating d arg cookie =
     (case py_int_str (case arg of None \<Rightarrow> ''-1'' | Some a \<Rightarrow> a) of
        Inl _ \<Rightarrow> Err400 ''Bad entrant index''
      | Inr e \<Rightarrow>
          if \<not> (0 \<le> e \<and> e < int (length ENTRANTS))
          then Ok200 None
          else case filter (key_match e (device_id_from_request cookie))
                      (ratings d) of
                 [] \<Rightarrow> Ok200 None
               | r # _ \<Rightarrow> Ok200 (Some (taste r, presentation r, easy r, judge r, one_word r)))"

subsection \<open>\<^verbatim>\<open>api_leaderboard\<close>\<close>

text \<open>To the nearest integer, a tie to the even one.\<close>

definition round_half_even :: "rat \<Rightarrow> int" where
  "round_half_even y =
     (let f = \<lfloor>y\<rfloor>; d = y - of_int f
      in if d < 1 / 2 then f else if 1 / 2 < d then f + 1 else if even f then f else f + 1)"

text \<open>The power of two with an integer exponent.\<close>

definition pow2 :: "int \<Rightarrow> rat" where
  "pow2 e = (if 0 \<le> e then 2 ^ nat e else 1 / 2 ^ nat (- e))"

text \<open>The binary exponent of a rational other than 0: the \<open>e\<close> with
  \<open>2^e \<le> |x| < 2^(e+1)\<close>, found from the bit lengths of numerator and denominator.\<close>

definition exponent :: "rat \<Rightarrow> int" where
  "exponent x =
     (let d = bitlen \<bar>fst (quotient_of x)\<bar> - bitlen (snd (quotient_of x))
      in if pow2 d \<le> \<bar>x\<bar> then d else d - 1)"

text \<open>The double nearest to \<open>x\<close>: the significand \<open>|x| / 2^(e-52)\<close> is rounded to an
  integer, a tie to the even one.\<close>

definition to_double :: "rat \<Rightarrow> rat" where
  "to_double x =
     (if x = 0 then 0
      else let u = pow2 (exponent x - 52); m = round_half_even (\<bar>x\<bar> / u)
           in if 0 < x then of_int m * u else - (of_int m * u))"

text \<open>
  \<^verbatim>\<open>AVG\<close> over the integers of a group (never empty). SQLite keeps the sum as a
  64-bit integer and returns \<^verbatim>\<open>(double)sum / (double)count\<close>, one division of
  doubles.
\<close>

definition avg :: "int list \<Rightarrow> rat" where
  "avg xs = to_double (to_double (of_int (sum_list xs)) / to_double (of_nat (length xs)))"

text \<open>One row of the query's result.\<close>

record lb_row =
  lb_entrant_index :: int
  lb_votes :: int
  lb_avg_taste :: rat
  lb_avg_presentation :: rat
  lb_avg_easy :: rat
  lb_avg_total :: rat

definition row_total :: "rating \<Rightarrow> int" where
  "row_total r = taste r + presentation r + easy r"

definition lb_group :: "rating list \<Rightarrow> int \<Rightarrow> lb_row" where
  "lb_group rows e =
     (let g = filter (\<lambda>r. entrant_index r = e) rows
      in \<lparr>lb_entrant_index = e, lb_votes = int (length g), lb_avg_taste = avg (map taste g),
          lb_avg_presentation = avg (map presentation g), lb_avg_easy = avg (map easy g),
          lb_avg_total = avg (map row_total g)\<rparr>)"

text \<open>
  \<^verbatim>\<open>
  SELECT entrant_index, COUNT(*) AS votes, AVG(taste) AS avg_taste,
         AVG(presentation) AS avg_presentation, AVG(easy) AS avg_easy,
         AVG(taste + presentation + easy) AS avg_total
  FROM ratings GROUP BY entrant_index ORDER BY avg_total DESC
  \<close>
  SQLite forms the groups in ascending order of the key and sorts them stably; SQL leaves
  the order of groups with equal \<^verbatim>\<open>avg_total\<close> open.
\<close>

definition leaderboard_query :: "rating list \<Rightarrow> lb_row list" where
  "leaderboard_query rows =
     sort_key (\<lambda>g. - lb_avg_total g) (map (lb_group rows) (sort (remdups (map entrant_index rows))))"

text \<open>
  Python's \<^verbatim>\<open>round(x, 2)\<close> on a double: CPython rounds the exact value of the double
  to the nearest multiple of 1/100, a tie to the even one, and returns the double nearest
  to that decimal. \<open>round2\<close> gives the decimal, which is the number the JSON answer
  shows.
\<close>

definition round2 :: "rat \<Rightarrow> rat" where
  "round2 x = of_int (round_half_even (x * 100)) / 100"

text \<open>\<^verbatim>\<open>r["avg_taste"] or 0\<close>.\<close>

definition or_zero :: "rat \<Rightarrow> rat" where
  "or_zero x = (if x \<noteq> 0 then x else 0)"

record lb_entry =
  name :: string
  votes :: int
  avg_taste :: rat
  avg_presentation :: rat
  avg_easy :: rat
  avg_total :: rat

definition lb_entry_of :: "lb_row \<Rightarrow> pyerr + lb_entry" where
  "lb_entry_of r =
     bind_err (py_index ENTRANTS (lb_entrant_index r)) (\<lambda>n.
       Inr \<lparr>name = n, votes = lb_votes r,
            avg_taste = round2 (or_zero (lb_avg_taste r)),
            avg_presentation = round2 (or_zero (lb_avg_presentation r)),
            avg_easy = round2 (or_zero (lb_avg_easy r)),
            avg_total = round2 (or_zero (lb_avg_total r))\<rparr>)"

definition api_leaderboard :: "db \<Rightarrow> pyerr + lb_entry list" where
  "api_leaderboard d = map_err lb_entry_of (leaderboard_query (ratings d))"

subsection \<open>\<^verbatim>\<open>api_words\<close>\<close>

text \<open>SQL \<^verbatim>\<open>TRIM\<close> removes blanks (0x20) only; SQLite's \<^verbatim>\<open>LOWER\<close> folds the
  letters A to Z only.\<close>

definition sql_trim :: "string \<Rightarrow> string" where
  "sql_trim s = rev (dropWhile (\<lambda>c. c = CHR '' '') (rev (dropWhile (\<lambda>c. c = CHR '' '') s)))"

definition lower_char :: "char \<Rightarrow> char" where
  "lower_char c =
     (case map_of (zip ''ABCDEFGHIJKLMNOPQRSTUVWXYZ'' ''abcdefghijklmnopqrstuvwxyz'') c of
        None \<Rightarrow> c
      | Some l \<Rightarrow> l)"

definition sql_lower :: "string \<Rightarrow> string" where
  "sql_lower s = map lower_char s"

text \<open>The rows that pass \<^verbatim>\<open>WHERE one_word IS NOT NULL AND TRIM(one_word) != ''\<close>,
  each as its grouping key \<^verbatim>\<open>(entrant_index, LOWER(TRIM(one_word)))\<close>.\<close>

definition word_keys :: "rating list \<Rightarrow> (int \<times> string) list" where
  "word_keys rows =
     List.map_filter
       (\<lambda>r. case one_word r of
              None \<Rightarrow> None
            | Some w \<Rightarrow> if sql_trim w \<noteq> [] then Some (entrant_index r, sql_lower (sql_trim w))
                        else None)
       rows"

text \<open>
  \<^verbatim>\<open>
  SELECT entrant_index, LOWER(TRIM(one_word)) AS w, COUNT(*) AS c FROM ratings
  WHERE one_word IS NOT NULL AND TRIM(one_word) != ''
  GROUP BY entrant_index, LOWER(TRIM(one_word))
  ORDER BY entrant_index ASC, c DESC, w ASC
  \<close>
  A result row is \<open>(entrant_index, w, c)\<close>. Text compares by code points.
\<close>

definition words_query :: "rating list \<Rightarrow> (int \<times> string \<times> int) list" where
  "words_query rows =
     (let ks = word_keys rows
      in sort_key (\<lambda>(e, w, c). (e, - c, w))
           (map (\<lambda>(e, w). (e, w, int (count_list ks (e, w)))) (remdups ks)))"

text \<open>\<^verbatim>\<open>out.setdefault(name, []).append(v)\<close> on a dict kept as its list of items in
  insertion order.\<close>

definition setdefault_append :: "('k \<times> 'v list) list \<Rightarrow> 'k \<Rightarrow> 'v \<Rightarrow> ('k \<times> 'v list) list" where
  "setdefault_append out k v =
     (if map_of out k = None then out @ [(k, [v])]
      else map (\<lambda>(k', vs). if k' = k then (k', vs @ [v]) else (k', vs)) out)"

text \<open>The loop of \<^verbatim>\<open>api_words\<close>; an entry of the answer is \<open>(word, count)\<close>.\<close>

fun words_loop ::
  "(int \<times> string \<times> int) list \<Rightarrow> (string \<times> (string \<times> int) list) list
   \<Rightarrow> pyerr + (string \<times> (string \<times> int) list) list" where
  "words_loop [] out = Inr out"
| "words_loop ((e, w, c) # rs) out =
     (case py_index ENTRANTS e of
        Inl err \<Rightarrow> Inl err
      | Inr n \<Rightarrow> words_loop rs (setdefault_append out n (w, c)))"

definition api_words :: "db \<Rightarrow> pyerr + (string \<times> (string \<times> int) list) list" where
  "api_words d = words_loop (words_query (ratings d)) []"

subsection \<open>\<^verbatim>\<open>export_csv\<close>\<close>

text \<open>\<^verbatim>\<open>str(n)\<close> for an integer.\<close>

fun str_nat :: "nat \<Rightarrow> string" where
  "str_nat n =
     (if n < 10 then [''0123456789'' ! n]
      else str_nat (n div 10) @ [''0123456789'' ! (n mod 10)])"

declare str_nat.simps [simp del]

definition str_int :: "int \<Rightarrow> string" where
  "str_int i = (if i < 0 then CHR ''-'' # str_nat (nat (- i)) else str_nat (nat i))"

text \<open>\<^verbatim>\<open>s.replace(old, new)\<close>: the occurrences of \<open>old\<close>, found left to right
  without overlap, become \<open>new\<close>.\<close>

function replace_str :: "string \<Rightarrow> string \<Rightarrow> string \<Rightarrow> string" where
  "replace_str old new [] = (if old = [] then new else [])"
| "replace_str old new (c # cs) =
     (if old = [] then new @ c # replace_str old new cs
      else if take (length old) (c # cs) = old
      then new @ replace_str old new (drop (length old) (c # cs))
      else c # replace_str old new cs)"
  by pat_completeness auto
termination
  by (relation "measure (\<lambda>(old, new, s). length s)") auto

text \<open>\<^verbatim>\<open>sep.join(xs)\<close>.\<close>

fun py_join :: "string \<Rightarrow> string list \<Rightarrow> string" where
  "py_join sep [] = []"
| "py_join sep [x] = x"
| "py_join sep (x # y # ys) = x @ sep @ py_join sep (y # ys)"

text \<open>\<^verbatim>\<open>x or ""\<close> on a nullable text column.\<close>

definition or_empty :: "string option \<Rightarrow> string" where
  "or_empty x = (case x of None \<Rightarrow> [] | Some s \<Rightarrow> if s = [] then [] else s)"

text \<open>
  \<^verbatim>\<open>
  def q(s):
      s = "" if s is None else str(s)
      return '"' + s.replace('"','""') + '"'
  \<close>
\<close>

definition q :: "string option \<Rightarrow> string" where
  "q s =
     (let t = (case s of None \<Rightarrow> [] | Some u \<Rightarrow> u)
      in [CHR 0x22] @ replace_str [CHR 0x22] [CHR 0x22, CHR 0x22] t @ [CHR 0x22])"

text \<open>The source ends each line with \<^verbatim>\<open>"\\n"\<close>, a backslash and the letter n.\<close>

definition line_end :: string where
  "line_end = [CHR 0x5C, CHR ''n'']"

definition csv_header :: string where
  "csv_header =
     py_join '','' [''id'', ''entrant_name'', ''taste'', ''presentation'', ''easy'', ''judge'',
       ''device_id'', ''one_word'', ''created_at''] @ line_end"

definition csv_fields :: "string \<Rightarrow> rating \<Rightarrow> string list" where
  "csv_fields n r =
     [str_int (row_id r), q (Some n), str_int (taste r), str_int (presentation r),
      str_int (easy r), q (Some (or_empty (judge r))), q (Some (or_empty (device_id r))),
      q (Some (or_empty (one_word r))), created_at r]"

definition csv_line :: "rating \<Rightarrow> pyerr + string" where
  "csv_line r =
     bind_err (py_index ENTRANTS (entrant_index r)) (\<lambda>n.
       Inr (py_join '','' (csv_fields n r) @ line_end))"

text \<open>\<^verbatim>\<open>SELECT ... FROM ratings ORDER BY created_at ASC\<close>: a stable sort of the rows
  in rowid order.\<close>

definition export_query :: "rating list \<Rightarrow> rating list" where
  "export_query rows = sort_key created_at rows"

text \<open>The chunks the generator yields; an exception in it ends the stream.\<close>

definition export_csv :: "db \<Rightarrow> pyerr + string list" where
  "export_csv d =
     bind_err (map_err csv_line (export_query (ratings d))) (\<lambda>ls. Inr (csv_header # ls))"

subsection \<open>The admin pages\<close>

datatype detail = Detail int string int int int int string string string string

datatype view =
    Redirect string
  | LoginTemplate "string option"
  | ResultsTemplate "detail list" "(string \<times> int \<times> rat) list" bool
  | ViewError pyerr

datatype http_method = GET | POST

definition detail_of :: "rating \<Rightarrow> pyerr + detail" where
  "detail_of r =
     bind_err (py_index ENTRANTS (entrant_index r)) (\<lambda>n.
       Inr (Detail (row_id r) n (taste r) (presentation r) (easy r)
              (taste r + presentation r + easy r) (or_empty (judge r))
              (or_empty (device_id r)) (or_empty (one_word r)) (created_at r)))"

definition admin_lb_of :: "lb_row \<Rightarrow> pyerr + (string \<times> int \<times> rat)" where
  "admin_lb_of r =
     bind_err (py_index ENTRANTS (lb_entrant_index r)) (\<lambda>n.
       Inr (n, lb_votes r, round2 (or_zero (lb_avg_total r))))"

text \<open>
  \<^verbatim>\<open>admin\<close>. \<open>secret\<close> is \<^verbatim>\<open>ADMIN_PASSWORD\<close>, \<open>is_admin\<close> the flag of the
  caller's session, \<open>password\<close> the form field, \<open>reset\<close> the query parameter. The
  result is the session flag after the request and the page.
\<close>

definition admin ::
  "string \<Rightarrow> db \<Rightarrow> bool \<Rightarrow> http_method \<Rightarrow> string option \<Rightarrow> string option \<Rightarrow> bool \<times> view" where
  "admin secret d is_admin method password reset =
     (if method = POST \<and> py_strip (or_empty password) = secret
      then (True, Redirect ''admin'')
      else if method = POST
      then (is_admin, LoginTemplate (Some ''Incorrect password''))
      else if \<not> is_admin then (is_admin, LoginTemplate None)
      else (is_admin,
        case bind_err
               (map_err detail_of
                  (sort_key (\<lambda>r. (entrant_index r, created_at r)) (ratings d))) (\<lambda>detailed.
             bind_err (map_err admin_lb_of (leaderboard_query (ratings d))) (\<lambda>lb.
             Inr (ResultsTemplate detailed lb (reset = Some ''1'')))) of
          Inl err \<Rightarrow> ViewError err
        | Inr v \<Rightarrow> v))"

text \<open>\<^verbatim>\<open>admin_reset\<close>: \<^verbatim>\<open>DELETE FROM ratings\<close> leaves \<^verbatim>\<open>sqlite_sequence\<close> as
  it is.\<close>

definition admin_reset :: "db \<Rightarrow> bool \<Rightarrow> db \<times> view" where
  "admin_reset d is_admin =
     (if \<not> is_admin then (d, Redirect ''admin'')
      else (d\<lparr>ratings := []\<rparr>, Redirect ''admin?reset=1''))"

text \<open>\<^verbatim>\<open>admin_logout\<close>.\<close>

definition admin_logout :: "bool \<Rightarrow> bool \<times> view" where
  "admin_logout is_admin = (False, Redirect ''admin'')"

subsection \<open>The states the application reaches\<close>

text \<open>The table starts empty; only \<^verbatim>\<open>api_rate\<close> and \<^verbatim>\<open>admin_reset\<close> write to
  it.\<close>

inductive reachable :: "db \<Rightarrow> bool" where
  start: "reachable init_db"
| rate: "reachable d \<Longrightarrow> reachable (fst (api_rate d body cookie now))"
| reset: "reachable d \<Longrightarrow> reachable (fst (admin_reset d is_admin))"

subsection \<open>Invariants of the table\<close>

text \<open>The key of the \<^verbatim>\<open>UNIQUE\<close> constraint, and the range of a valid index into
  \<^verbatim>\<open>ENTRANTS\<close>.\<close>

definition row_key :: "rating \<Rightarrow> int \<times> string option" where
  "row_key r = (entrant_index r, device_id r)"

definition valid_row :: "rating \<Rightarrow> bool" where
  "valid_row r = (0 \<le> entrant_index r \<and> entrant_index r < int (length ENTRANTS))"

subsection \<open>Example requests\<close>

text \<open>Two bodies of \<^verbatim>\<open>POST /api/rate\<close> for the entrant of index 3.\<close>

definition first_body :: json where
  "first_body = JObj [(''entrant_index'', JInt 3), (''taste'', JInt 2), (''presentation'', JInt 3),
     (''easy'', JInt 4), (''judge'', JStr '' Ann ''), (''one_word'', JStr ''  Delicious extra words  '')]"

definition second_body :: json where
  "second_body = JObj [(''entrant_index'', JStr ''3''), (''taste'', JInt 5), (''presentation'', JInt 1),
     (''easy'', JInt 1), (''one_word'', JStr ''meh'')]"

text \<open>A body whose taste is the number 3.5, and one whose taste is a word.\<close>

definition float_body :: json where
  "float_body = JObj [(''entrant_index'', JInt 0), (''taste'', JFloat (7 / 2)),
     (''presentation'', JInt 4), (''easy'', JInt 4)]"

definition text_body :: json where
  "text_body = JObj [(''entrant_index'', JInt 0), (''taste'', JStr ''tasty''),
     (''presentation'', JInt 4), (''easy'', JInt 4)]"

subsection \<open>The specification's wording, and its examples\<close>

text \<open>A text field as the specification words it: between double quotes, every
  double quote of the text doubled.\<close>
definition quoted_spec :: "string \<Rightarrow> string" where
  "quoted_spec s =
     CHR 0x22 # concat (map (\<lambda>c. if c = CHR 0x22 then [CHR 0x22, CHR 0x22] else [c]) s)
       @ [CHR 0x22]"

text \<open>A line of the export as the specification words it: id, entrant name, the three
  scores, judge, device_id, one_word and created_at, the texts quoted, the numbers plain.\<close>
definition csv_line_spec :: "rating \<Rightarrow> string" where
  "csv_line_spec r =
     str_int (row_id r) @ '','' @ quoted_spec (ENTRANTS ! nat (entrant_index r)) @ '',''
     @ str_int (taste r) @ '','' @ str_int (presentation r) @ '','' @ str_int (easy r) @ '',''
     @ quoted_spec (case judge r of None \<Rightarrow> [] | Some s \<Rightarrow> s) @ '',''
     @ quoted_spec (case device_id r of None \<Rightarrow> [] | Some s \<Rightarrow> s) @ '',''
     @ quoted_spec (case one_word r of None \<Rightarrow> [] | Some s \<Rightarrow> s) @ '',''
     @ created_at r @ line_end"

text \<open>The judge \<^verbatim>\<open>O"Brien\<close>, and a table with one rating by that judge.\<close>
definition obrien :: string where
  "obrien = ''O'' @ [CHR 0x22] @ ''Brien''"

definition obrien_db :: db where
  "obrien_db = \<lparr>ratings = [\<lparr>row_id = 12, entrant_index = 1, taste = 5, presentation = 4,
     easy = 3, judge = Some obrien, device_id = Some ''anon'', one_word = None,
     created_at = ''2025-02-09 18:00:00''\<rparr>], seq = 12\<rparr>"

text \<open>The mean of a list of integers, and "rounded to 2 decimal places": a multiple of
  1/100 at most half a hundredth away.\<close>
definition mean_spec :: "int list \<Rightarrow> rat" where
  "mean_spec xs = of_int (sum_list xs) / of_nat (length xs)"

definition is_rounded2 :: "rat \<Rightarrow> rat \<Rightarrow> bool" where
  "is_rounded2 x y = (y * 100 = of_int \<lfloor>y * 100\<rfloor> \<and> \<bar>y - x\<bar> \<le> 1 / 200)"

text \<open>The leaderboard entry of the entrant of index \<open>i\<close>, as the specification words it.\<close>
definition entry_spec :: "rating list \<Rightarrow> int \<Rightarrow> lb_entry \<Rightarrow> bool" where
  "entry_spec rows i e =
     (let g = filter (\<lambda>r. entrant_index r = i) rows
      in name e = ENTRANTS ! nat i \<and> votes e = int (length g)
         \<and> is_rounded2 (mean_spec (map taste g)) (avg_taste e)
         \<and> is_rounded2 (mean_spec (map presentation g)) (avg_presentation e)
         \<and> is_rounded2 (mean_spec (map easy g)) (avg_easy e)
         \<and> is_rounded2 (mean_spec (map (\<lambda>r. taste r + presentation r + easy r) g))
              (avg_total e))"

text \<open>Trimming and case folding stated on their own, without the query's functions: blanks (0x20) are dropped from both ends, and a letter from A to Z
  becomes the lower-case letter, whose code is greater by 32.\<close>

fun drop_blanks :: "string \<Rightarrow> string" where
  "drop_blanks [] = []"
| "drop_blanks (c # cs) = (if c = CHR 0x20 then drop_blanks cs else c # cs)"

definition trim_blanks_spec :: "string \<Rightarrow> string" where
  "trim_blanks_spec s = rev (drop_blanks (rev (drop_blanks s)))"

definition fold_letter_spec :: "char \<Rightarrow> char" where
  "fold_letter_spec c =
     (if CHR ''A'' \<le> c \<and> c \<le> CHR ''Z'' then char_of (of_char c + (32 :: nat)) else c)"

text \<open>The words of the entrant of index \<open>i\<close>: the one_word values of its rows that are
  present and not empty once trimmed, each trimmed and with its letters A to Z folded.\<close>

definition entrant_words :: "rating list \<Rightarrow> int \<Rightarrow> string list" where
  "entrant_words rows i =
     map (\<lambda>w. map fold_letter_spec (trim_blanks_spec w))
       (filter (\<lambda>w. trim_blanks_spec w \<noteq> [])
          (List.map_filter one_word (filter (\<lambda>r. entrant_index r = i) rows)))"

text \<open>A list of \<open>(word, count)\<close> that holds each distinct word of \<open>ws\<close> once, with the
  number of its occurrences, by count descending and then by word ascending.\<close>
definition word_counts_spec :: "string list \<Rightarrow> (string \<times> int) list \<Rightarrow> bool" where
  "word_counts_spec ws out =
     (set out = (\<lambda>w. (w, int (count_list ws w))) ` set ws
      \<and> distinct (map fst out)
      \<and> sorted_wrt (\<lambda>a b. snd b < snd a \<or> (snd a = snd b \<and> fst a \<le> fst b)) out)"

text \<open>The example of the specification: entrant A (index 0) with the one_word values
  Good, good and Bad; an entrant without a word; an entrant whose word stands between
  blanks.\<close>

definition words_example :: db where
  "words_example = \<lparr>ratings =
     [\<lparr>row_id = 1, entrant_index = 0, taste = 2, presentation = 2, easy = 2, judge = None,
        device_id = Some ''d1'', one_word = Some ''Good'', created_at = ''2025-02-09 18:00:00''\<rparr>,
      \<lparr>row_id = 2, entrant_index = 2, taste = 3, presentation = 3, easy = 4, judge = None,
        device_id = Some ''d1'', one_word = None, created_at = ''2025-02-09 18:00:01''\<rparr>,
      \<lparr>row_id = 3, entrant_index = 0, taste = 4, presentation = 4, easy = 4, judge = None,
        device_id = Some ''d2'', one_word = Some ''good'', created_at = ''2025-02-09 18:00:02''\<rparr>,
      \<lparr>row_id = 4, entrant_index = 0, taste = 5, presentation = 5, easy = 4, judge = None,
        device_id = Some ''d3'', one_word = Some ''Bad'', created_at = ''2025-02-09 18:00:04''\<rparr>,
      \<lparr>row_id = 5, entrant_index = 5, taste = 5, presentation = 5, easy = 5, judge = None,
        device_id = Some ''d3'', one_word = Some ''  Yum '', created_at = ''2025-02-09 18:00:05''\<rparr>],
     seq = 5\<rparr>"

text \<open>The \<^verbatim>\<open>CHECK\<close> constraints of the table on a row.\<close>

definition checked_row :: "rating \<Rightarrow> bool" where
  "checked_row r = (score_ok (taste r) \<and> score_ok (presentation r) \<and> score_ok (easy r))"

text \<open>A body of \<^verbatim>\<open>POST /api/rate\<close> with an entrant index and three scores, and the
  table after a list of such requests, each with its \<^verbatim>\<open>device_id\<close> cookie.\<close>

definition rate_body :: "int \<Rightarrow> int \<Rightarrow> int \<Rightarrow> int \<Rightarrow> json" where
  "rate_body e t p ea = JObj [(''entrant_index'', JInt e), (''taste'', JInt t),
     (''presentation'', JInt p), (''easy'', JInt ea)]"

definition submit_all :: "db \<Rightarrow> (json \<times> string) list \<Rightarrow> db" where
  "submit_all d reqs =
     foldl (\<lambda>d (body, dev). fst (api_rate d (Some body) (Some dev) ''2025-02-09 18:00:00''))
       d reqs"

text \<open>The example of the specification: entrant A (index 0) with totals 10, 12 and 14,
  entrant B (index 1) with totals 6 and 8, each rating from another device.\<close>

definition lb_example :: db where
  "lb_example = submit_all init_db
     [(rate_body 1 2 2 2, ''d1''), (rate_body 0 3 3 4, ''d1''), (rate_body 0 4 4 4, ''d2''),
      (rate_body 1 3 3 2, ''d2''), (rate_body 0 5 5 4, ''d3'')]"

text \<open>A body of \<^verbatim>\<open>POST /api/rate\<close> that carries a one_word, and the table after two
  devices described entrant 0 by the letter E with an acute accent, one in upper case
  (code 0xC9) and one in lower case (code 0xE9).\<close>

definition word_body :: "int \<Rightarrow> string \<Rightarrow> json" where
  "word_body e w = JObj [(''entrant_index'', JInt e), (''taste'', JInt 3),
     (''presentation'', JInt 3), (''easy'', JInt 3), (''one_word'', JStr w)]"

definition accent_example :: db where
  "accent_example = submit_all init_db
     [(word_body 0 [CHR 0xC9], ''d1''), (word_body 0 [CHR 0xE9], ''d2'')]"

section \<open>Properties\<close>

subsection \<open>Splitting and stripping\<close>

lemma split_scan_nonspace:
  "\<not> is_space c \<Longrightarrow>
   split_scan cur (c # cs) \<noteq> [] \<and>
   hd (split_scan cur (c # cs)) = rev cur @ takeWhile (\<lambda>c. \<not> is_space c) (c # cs)"
proof (induction cs arbitrary: cur c)
  case Nil
  then show ?case by simp
next
  case (Cons d ds)
  show ?case
  proof (cases "is_space d")
    case True
    with Cons.prems show ?thesis by simp
  next
    case False
    from Cons.IH [OF False, of "c # cur"] Cons.prems False show ?thesis by simp
  qed
qed

lemma py_strip_Nil_iff: "py_strip s = [] \<longleftrightarrow> dropWhile is_space s = []"
proof (cases "dropWhile is_space s")
  case Nil
  show ?thesis unfolding py_strip_def Nil by simp
next
  case (Cons c cs)
  then have "\<not> is_space c" using hd_dropWhile [of is_space s] by simp
  with Cons show ?thesis by (simp add: py_strip_def dropWhile_eq_Nil_conv)
qed

lemma rev_dropWhile_rev_prefix: "\<exists>ys. t = rev (dropWhile P (rev t)) @ ys"
proof -
  have "rev t = takeWhile P (rev t) @ dropWhile P (rev t)" by simp
  then have "rev (rev t) = rev (takeWhile P (rev t) @ dropWhile P (rev t))" by simp
  then have "t = rev (dropWhile P (rev t)) @ rev (takeWhile P (rev t))"
    by (simp only: rev_rev_ident rev_append)
  then show ?thesis ..
qed

lemma py_strip_head:
  assumes "py_strip s \<noteq> []"
  shows "\<not> is_space (hd (py_strip s))"
proof -
  let ?t = "dropWhile is_space s"
  from assms have ne: "?t \<noteq> []" by (simp add: py_strip_Nil_iff)
  then have h: "\<not> is_space (hd ?t)" by (rule hd_dropWhile)
  from rev_dropWhile_rev_prefix [of ?t is_space]
  obtain ys where "?t = py_strip s @ ys" by (auto simp: py_strip_def)
  with assms have "hd ?t = hd (py_strip s)" by (metis hd_append2)
  with h show ?thesis by simp
qed

lemma trim_spec_eq: "trim_spec s = py_strip s"
  by (simp add: trim_spec_def py_strip_def)

lemma sanitize_one_word_string:
  "sanitize_one_word (JStr s) = Inr (one_word_spec s)"
proof (cases "py_strip s = []")
  case True
  then have "one_word_spec s = None" by (simp add: one_word_spec_def trim_spec_eq)
  moreover from True have "sanitize_one_word (JStr s) = Inr None"
    by (simp add: sanitize_one_word_def py_or_def)
  ultimately show ?thesis by simp
next
  case False
  then have sne: "s \<noteq> []" by (auto simp: py_strip_def)
  from False obtain c cs where t: "py_strip s = c # cs" by (cases "py_strip s") auto
  with py_strip_head [OF False] have c: "\<not> is_space c" by simp
  from split_scan_nonspace [OF c, of "[]" cs]
  obtain w ws where sp: "py_split (c # cs) = w # ws"
    and w: "w = takeWhile (\<lambda>c. \<not> is_space c) (c # cs)"
    by (cases "py_split (c # cs)") (auto simp: py_split_def)
  from c have ft: "first_token_spec (c # cs) = w"
    by (simp add: first_token_spec_def w)
  have "one_word_spec s = Some (take 20 w)"
    by (simp add: one_word_spec_def trim_spec_eq t ft)
  moreover from sne have "sanitize_one_word (JStr s) = Inr (Some (take 20 w))"
    by (simp add: sanitize_one_word_def py_or_def t sp)
  ultimately show ?thesis by simp
qed

subsection \<open>The upsert\<close>

lemma bind_err_Inl [simp]: "bind_err (Inl e) f = Inl e"
  by (simp add: bind_err_def)

lemma bind_err_Inr [simp]: "bind_err (Inr x) f = f x"
  by (simp add: bind_err_def)

lemma key_match_overwrite [simp]:
  "key_match e dev (r\<lparr>taste := t, presentation := p, easy := ea, judge := j, one_word := w\<rparr>)
   = key_match e dev r"
  by (simp add: key_match_def)

lemma filter_map_overwrite:
  "filter (key_match e dev)
     (map (\<lambda>r. if key_match e' dev' r
               then r\<lparr>taste := t, presentation := p, easy := ea, judge := j, one_word := w\<rparr>
               else r) rows)
   = map (\<lambda>r. if key_match e' dev' r
               then r\<lparr>taste := t, presentation := p, easy := ea, judge := j, one_word := w\<rparr>
               else r) (filter (key_match e dev) rows)"
  by (induction rows) auto

lemma upsert_scores:
  "upsert d e t p ea j dev w now = Inr d' \<Longrightarrow> score_ok t \<and> score_ok p \<and> score_ok ea"
  by (auto simp: upsert_def split: if_splits)

lemma upsert_total:
  "score_ok t \<Longrightarrow> score_ok p \<Longrightarrow> score_ok ea \<Longrightarrow> \<exists>d'. upsert d e t p ea j dev w now = Inr d'"
  by (simp add: upsert_def)

lemma upsert_rows:
  assumes "upsert d e t p ea j dev w now = Inr d'"
  shows "filter (key_match e dev) (ratings d') =
     (if filter (key_match e dev) (ratings d) = []
      then [\<lparr>row_id = seq d + 1, entrant_index = e, taste = t, presentation = p,
                   easy = ea, judge = j, device_id = Some dev, one_word = w,
                   created_at = now\<rparr>]
      else map (\<lambda>r. r\<lparr>taste := t, presentation := p, easy := ea, judge := j, one_word := w\<rparr>)
             (filter (key_match e dev) (ratings d)))"
proof (cases "filter (key_match e dev) (ratings d) = []")
  case True
  with assms have "ratings d' = ratings d @
                 [\<lparr>row_id = seq d + 1, entrant_index = e, taste = t, presentation = p,
                   easy = ea, judge = j, device_id = Some dev, one_word = w,
                   created_at = now\<rparr>]"
    by (auto simp: upsert_def split: if_splits)
  with True show ?thesis by (simp add: key_match_def)
next
  case False
  with assms have "ratings d' = map (\<lambda>r. if key_match e dev r
                          then r\<lparr>taste := t, presentation := p, easy := ea, judge := j,
                                 one_word := w\<rparr>
                          else r) (ratings d)"
    by (auto simp: upsert_def split: if_splits)
  with False show ?thesis
    by (simp add: filter_map_overwrite)
qed

lemma api_rate_cases:
  "(\<exists>msg. api_rate d body cookie now = (d, Err400 msg)) \<or>
   (\<exists>e t p ea j w d'. parse_rate (request_data body) = Inr (e, t, p, ea, j, w)
      \<and> 0 \<le> e \<and> e < int (length ENTRANTS)
      \<and> score_ok t \<and> score_ok p \<and> score_ok ea
      \<and> upsert d e t p ea j (device_id_from_request cookie) w now = Inr d'
      \<and> api_rate d body cookie now = (d', Ok200 ()))"
proof (cases "parse_rate (request_data body)")
  case (Inl err)
  then show ?thesis by (simp add: api_rate_def)
next
  case (Inr v)
  obtain e t p ea j w where v: "v = (e, t, p, ea, j, w)" by (cases v) auto
  show ?thesis
  proof (cases "0 \<le> e \<and> e < int (length ENTRANTS) \<and> score_ok t \<and> score_ok p \<and> score_ok ea")
    case True
    then obtain d' where "upsert d e t p ea j (device_id_from_request cookie) w now = Inr d'"
      using upsert_total by blast
    with True Inr v show ?thesis by (auto simp: api_rate_def score_ok_def)
  next
    case False
    with Inr v show ?thesis by (auto simp: api_rate_def score_ok_def)
  qed
qed

subsection \<open>What every reachable table satisfies\<close>

lemma filter_key_match_le1:
  "distinct (map row_key rows) \<Longrightarrow> length (filter (key_match e dev) rows) \<le> 1"
proof (induction rows)
  case Nil
  then show ?case by simp
next
  case (Cons r rows)
  show ?case
  proof (cases "key_match e dev r")
    case True
    have "filter (key_match e dev) rows = []"
    proof (rule ccontr)
      assume "filter (key_match e dev) rows \<noteq> []"
      then obtain x where "x \<in> set rows" "key_match e dev x"
        by (metis filter_False)
      with True have "row_key x = row_key r" by (simp add: key_match_def row_key_def)
      with \<open>x \<in> set rows\<close> have "row_key r \<in> row_key ` set rows" by (metis imageI)
      with Cons.prems show False by simp
    qed
    with True show ?thesis by simp
  next
    case False
    with Cons show ?thesis by simp
  qed
qed

lemma upsert_keeps_distinct:
  assumes "upsert d e t p ea j dev w now = Inr d'" "distinct (map row_key (ratings d))"
  shows "distinct (map row_key (ratings d'))"
proof (cases "filter (key_match e dev) (ratings d) = []")
  case True
  with assms(1) have r: "ratings d' = ratings d @
                 [\<lparr>row_id = seq d + 1, entrant_index = e, taste = t, presentation = p,
                   easy = ea, judge = j, device_id = Some dev, one_word = w,
                   created_at = now\<rparr>]"
    by (auto simp: upsert_def split: if_splits)
  from True have "(e, Some dev) \<notin> row_key ` set (ratings d)"
    by (auto simp: filter_empty_conv key_match_def row_key_def)
  with r assms(2) show ?thesis by (simp add: row_key_def)
next
  case False
  with assms(1) have r: "ratings d' = map (\<lambda>r. if key_match e dev r
                          then r\<lparr>taste := t, presentation := p, easy := ea, judge := j,
                                 one_word := w\<rparr>
                          else r) (ratings d)"
    by (auto simp: upsert_def split: if_splits)
  have "map row_key (ratings d') = map row_key (ratings d)"
    unfolding r by (induction "ratings d") (auto simp: row_key_def)
  with assms(2) show ?thesis by simp
qed

lemma upsert_keeps_valid:
  assumes "upsert d e t p ea j dev w now = Inr d'" "list_all valid_row (ratings d)"
    "0 \<le> e" "e < int (length ENTRANTS)"
  shows "list_all valid_row (ratings d')"
  using assms by (auto simp: upsert_def list_all_iff valid_row_def split: if_splits)

lemma reachable_invariant:
  "reachable d \<Longrightarrow> distinct (map row_key (ratings d)) \<and> list_all valid_row (ratings d)"
proof (induction rule: reachable.induct)
  case start
  then show ?case by (simp add: init_db_def)
next
  case (rate d body cookie now)
  from api_rate_cases [of d body cookie now] show ?case
  proof (elim disjE exE conjE)
    fix msg assume "api_rate d body cookie now = (d, Err400 msg)"
    with rate.IH show ?thesis by simp
  next
    fix e t p ea j w d'
    assume "upsert d e t p ea j (device_id_from_request cookie) w now = Inr d'"
      "api_rate d body cookie now = (d', Ok200 ())" "0 \<le> e" "e < int (length ENTRANTS)"
    with rate.IH upsert_keeps_distinct upsert_keeps_valid show ?thesis by auto
  qed
next
  case (reset d is_admin)
  then show ?case by (simp add: admin_reset_def)
qed

subsection \<open>Submitting a rating\<close>

lemma api_rate_accepted:
  assumes "api_rate d body cookie now = (d', Ok200 ())"
    and "parse_rate (request_data body) = Inr (e, t, p, ea, j, w)"
  shows "upsert d e t p ea j (device_id_from_request cookie) w now = Inr d'"
    and "0 \<le> e" and "e < int (length ENTRANTS)"
  using api_rate_cases [of d body cookie now] assms by auto

lemma stored_after_accept:
  assumes "reachable d" "api_rate d body cookie now = (d', Ok200 ())"
    and "parse_rate (request_data body) = Inr (e, t, p, ea, j, w)"
  shows "\<exists>r. filter (key_match e (device_id_from_request cookie)) (ratings d') = [r]
     \<and> taste r = t \<and> presentation r = p \<and> easy r = ea \<and> judge r = j \<and> one_word r = w"
proof -
  let ?dev = "device_id_from_request cookie"
  let ?old = "filter (key_match e ?dev) (ratings d)"
  from assms(2,3) have u: "upsert d e t p ea j ?dev w now = Inr d'"
    by (rule api_rate_accepted)
  from assms(1) have "length ?old \<le> 1"
    using reachable_invariant filter_key_match_le1 by blast
  then consider "?old = []" | r0 where "?old = [r0]"
    by (cases ?old) (auto simp: Suc_le_eq)
  then show ?thesis
  proof cases
    case 1
    with upsert_rows [OF u] show ?thesis by simp
  next
    case 2
    with upsert_rows [OF u] show ?thesis by simp
  qed
qed

text \<open>
  C1. From any state the application reaches, two accepted submissions for the same
  entrant from the same device leave exactly one row for that entrant and device. It is
  the row the first submission left, with taste, presentation, easy, judge and one_word
  overwritten by the second submission's values; its id and created_at (and every other
  column) are those the first submission left.
\<close>

theorem resubmit_overwrites_single_row:
  assumes "reachable d"
    and "parse_rate (request_data b1) = Inr (e, t1, pr1, ea1, j1, w1)"
    and "parse_rate (request_data b2) = Inr (e, t2, pr2, ea2, j2, w2)"
    and "api_rate d b1 cookie now1 = (d1, Ok200 ())"
    and "api_rate d1 b2 cookie now2 = (d2, Ok200 ())"
  shows "\<exists>r1. filter (key_match e (device_id_from_request cookie)) (ratings d1) = [r1]
     \<and> filter (key_match e (device_id_from_request cookie)) (ratings d2)
         = [r1\<lparr>taste := t2, presentation := pr2, easy := ea2, judge := j2, one_word := w2\<rparr>]
     \<and> row_id (hd (filter (key_match e (device_id_from_request cookie)) (ratings d2))) = row_id r1
     \<and> created_at (hd (filter (key_match e (device_id_from_request cookie)) (ratings d2)))
         = created_at r1"
proof -
  let ?dev = "device_id_from_request cookie"
  from stored_after_accept [OF assms(1,4,2)]
  obtain r1 where r1: "filter (key_match e ?dev) (ratings d1) = [r1]" by blast
  from assms(5,3) have u: "upsert d1 e t2 pr2 ea2 j2 ?dev w2 now2 = Inr d2"
    by (rule api_rate_accepted)
  from upsert_rows [OF u] r1
  have "filter (key_match e ?dev) (ratings d2)
      = [r1\<lparr>taste := t2, presentation := pr2, easy := ea2, judge := j2, one_word := w2\<rparr>]"
    by simp
  with r1 show ?thesis by simp
qed

lemma is_space_simps [simp]:
  "is_space CHR '' ''" "\<not> is_space CHR ''D''"
  by (simp_all add: is_space_def)

lemma parse_first_body: "parse_rate (request_data (Some first_body)) = Inr (3, 2, 3, 4, Some ''Ann'', Some ''Delicious'')"
  by (simp add: first_body_def parse_rate_def request_data_def py_or_def clean_judge_def
      sanitize_one_word_def py_strip_def py_split_def is_space_def)

lemma parse_second_body: "parse_rate (request_data (Some second_body)) = Inr (3, 5, 1, 1, None, Some ''meh'')"
  by (simp add: second_body_def parse_rate_def request_data_def py_or_def clean_judge_def
      sanitize_one_word_def py_strip_def py_split_def is_space_def py_int_str_def
      is_int_space_def is_digit_def digit_value_def digits_value_def)

lemma parse_rate_one_word:
  assumes "parse_rate data = Inr (e, t, p, ea, j, w)"
    and "dict_get data ''one_word'' = Inr v"
  shows "sanitize_one_word v = Inr w"
  using assms by (auto simp: parse_rate_def bind_err_def split: sum.splits)

lemma parse_rate_int_fails:
  assumes "k \<in> {''taste'', ''presentation'', ''easy''}"
    and "dict_get data k = Inr v" and "py_int v = Inl err"
  shows "\<exists>err'. parse_rate data = Inl err'"
  using assms by (auto simp: parse_rate_def bind_err_def split: sum.splits)

lemma one_word_spec_None_iff: "one_word_spec s = None \<longleftrightarrow> list_all is_space s"
  by (simp add: one_word_spec_def trim_spec_eq py_strip_Nil_iff dropWhile_eq_Nil_conv
      list_all_iff)

theorem resubmit_overwrites_single_row_witness:
  "reachable init_db
   \<and> api_rate init_db (Some first_body) None ''2025-02-09 18:00:00''
       = (\<lparr>ratings = [\<lparr>row_id = 1, entrant_index = 3, taste = 2, presentation = 3, easy = 4,
            judge = Some ''Ann'', device_id = Some ''anon'', one_word = Some ''Delicious'',
            created_at = ''2025-02-09 18:00:00''\<rparr>], seq = 1\<rparr>, Ok200 ())
   \<and> filter (key_match 3 ''anon'')
        (ratings (fst (api_rate (fst (api_rate init_db (Some first_body) None ''2025-02-09 18:00:00''))
           (Some second_body) None ''2025-02-09 19:30:00'')))
       = [\<lparr>row_id = 1, entrant_index = 3, taste = 5, presentation = 1, easy = 1,
            judge = None, device_id = Some ''anon'', one_word = Some ''meh'',
            created_at = ''2025-02-09 18:00:00''\<rparr>]"
proof -
  let ?r1 = "\<lparr>row_id = 1, entrant_index = 3, taste = 2, presentation = 3, easy = 4,
            judge = Some ''Ann'', device_id = Some ''anon'', one_word = Some ''Delicious'',
            created_at = ''2025-02-09 18:00:00''\<rparr>"
  let ?d1 = "\<lparr>ratings = [?r1], seq = 1\<rparr>"
  have a1: "api_rate init_db (Some first_body) None ''2025-02-09 18:00:00'' = (?d1, Ok200 ())"
    by (simp add: api_rate_def parse_first_body ENTRANTS_def upsert_def score_ok_def init_db_def
        device_id_from_request_def)
  obtain d2 where a2: "api_rate ?d1 (Some second_body) None ''2025-02-09 19:30:00'' = (d2, Ok200 ())"
    by (simp add: api_rate_def parse_second_body ENTRANTS_def upsert_def score_ok_def
        device_id_from_request_def key_match_def)
  have dev: "device_id_from_request None = ''anon''"
    by (simp add: device_id_from_request_def)
  have f1: "filter (key_match 3 ''anon'') (ratings ?d1) = [?r1]"
    by (simp add: key_match_def)
  from resubmit_overwrites_single_row [OF reachable.start parse_first_body parse_second_body a1 a2] f1
  have "filter (key_match 3 ''anon'') (ratings d2)
      = [?r1\<lparr>taste := 5, presentation := 1, easy := 1, judge := None, one_word := Some ''meh''\<rparr>]"
    by (simp add: dev)
  with a1 a2 reachable.start show ?thesis by simp
qed

text \<open>
  C7. For every string sent as one_word, the value kept is absent exactly when the input
  is empty or all whitespace, and otherwise the first whitespace-delimited token of the
  trimmed input cut to 20 characters; this value is the one_word of the row an accepted
  submission leaves. The input \<^verbatim>\<open>"  Delicious extra words  "\<close> is kept as
  \<^verbatim>\<open>"Delicious"\<close>, a blank input as absent.
\<close>

theorem one_word_normalised:
  "sanitize_one_word (JStr s) = Inr (one_word_spec s)
   \<and> (one_word_spec s = None \<longleftrightarrow> list_all is_space s)
   \<and> (reachable d \<and> dict_get (request_data body) ''one_word'' = Inr (JStr s)
        \<and> parse_rate (request_data body) = Inr (e, t, p, ea, j, w)
        \<and> api_rate d body cookie now = (d', Ok200 ())
      \<longrightarrow> map one_word (filter (key_match e (device_id_from_request cookie)) (ratings d'))
            = [one_word_spec s])
   \<and> sanitize_one_word (JStr ''  Delicious extra words  '') = Inr (Some ''Delicious'')
   \<and> sanitize_one_word (JStr ''   '') = Inr None"
proof (intro conjI impI)
  show "sanitize_one_word (JStr s) = Inr (one_word_spec s)"
    by (rule sanitize_one_word_string)
  show "one_word_spec s = None \<longleftrightarrow> list_all is_space s"
    by (rule one_word_spec_None_iff)
  show "sanitize_one_word (JStr ''  Delicious extra words  '') = Inr (Some ''Delicious'')"
    by (simp add: sanitize_one_word_def py_or_def py_strip_def py_split_def is_space_def)
  show "sanitize_one_word (JStr ''   '') = Inr None"
    by (simp add: sanitize_one_word_def py_or_def py_strip_def py_split_def is_space_def)
next
  assume h: "reachable d \<and> dict_get (request_data body) ''one_word'' = Inr (JStr s)
        \<and> parse_rate (request_data body) = Inr (e, t, p, ea, j, w)
        \<and> api_rate d body cookie now = (d', Ok200 ())"
  then have "sanitize_one_word (JStr s) = Inr w"
    using parse_rate_one_word by blast
  then have w: "w = one_word_spec s" by (simp add: sanitize_one_word_string)
  from h stored_after_accept [of d body cookie now d' e t p ea j w]
  obtain r where "filter (key_match e (device_id_from_request cookie)) (ratings d') = [r]"
    "one_word r = w" by blast
  with w show "map one_word (filter (key_match e (device_id_from_request cookie)) (ratings d'))
            = [one_word_spec s]" by simp
qed

theorem one_word_normalised_witness:
  "reachable init_db
   \<and> dict_get (request_data (Some first_body)) ''one_word'' = Inr (JStr ''  Delicious extra words  '')
   \<and> parse_rate (request_data (Some first_body)) = Inr (3, 2, 3, 4, Some ''Ann'', Some ''Delicious'')
   \<and> snd (api_rate init_db (Some first_body) (Some ''k'') ''2025-02-09 18:00:00'') = Ok200 ()
   \<and> map one_word (filter (key_match 3 ''k'')
        (ratings (fst (api_rate init_db (Some first_body) (Some ''k'') ''2025-02-09 18:00:00''))))
      = [Some ''Delicious'']"
proof -
  have g: "dict_get (request_data (Some first_body)) ''one_word'' = Inr (JStr ''  Delicious extra words  '')"
    by (simp add: first_body_def request_data_def py_or_def)
  obtain d' where a: "api_rate init_db (Some first_body) (Some ''k'') ''2025-02-09 18:00:00'' = (d', Ok200 ())"
    by (simp add: api_rate_def parse_first_body ENTRANTS_def upsert_def score_ok_def init_db_def
        device_id_from_request_def)
  have dev: "device_id_from_request (Some ''k'') = ''k''"
    by (simp add: device_id_from_request_def)
  have s: "one_word_spec ''  Delicious extra words  '' = Some ''Delicious''"
    by (simp add: one_word_spec_def trim_spec_def first_token_spec_def is_space_def)
  from one_word_normalised [of "''  Delicious extra words  ''" init_db "Some first_body" 3 2 3 4
      "Some ''Ann''" "Some ''Delicious''" "Some ''k''" "''2025-02-09 18:00:00''" d']
    reachable.start g parse_first_body a
  have "map one_word (filter (key_match 3 ''k'') (ratings d')) = [Some ''Delicious'']"
    by (simp add: dev s)
  with reachable.start g parse_first_body a show ?thesis by simp
qed

subsection \<open>Validation and authentication\<close>

text \<open>C2 as stated fails: index 99 is out of range, and the lookup answers with status
  200 and no rating.\<close>

theorem my_rating_out_of_range_counterexample:
  "\<not> (0 \<le> (99::int) \<and> (99::int) < int (length ENTRANTS))
   \<and> api_my_rating init_db (Some ''99'') (Some ''device-1'') = Ok200 None"
  by (simp add: api_my_rating_def py_int_str_def ENTRANTS_def is_int_space_def is_digit_def
      digit_value_def digits_value_def)

text \<open>
  C2, amended. For every entrant_index that reads as an integer outside
  \<open>[0, N_ENTRANTS)\<close>, and for a request without the parameter, the lookup succeeds
  with the ordinary answer "no rating", whatever the table and the device; the lookup
  fails with a validation error exactly when the parameter does not read as an integer.
\<close>

theorem my_rating_out_of_range:
  "(py_int_str (case arg of None \<Rightarrow> ''-1'' | Some a \<Rightarrow> a) = Inr e
      \<and> \<not> (0 \<le> e \<and> e < int (length ENTRANTS))
     \<longrightarrow> api_my_rating d arg cookie = Ok200 None)
   \<and> api_my_rating d None cookie = Ok200 None
   \<and> ((\<exists>msg. api_my_rating d arg cookie = Err400 msg)
        \<longleftrightarrow> (\<exists>err. py_int_str (case arg of None \<Rightarrow> ''-1'' | Some a \<Rightarrow> a) = Inl err))"
proof (intro conjI impI)
  assume "py_int_str (case arg of None \<Rightarrow> ''-1'' | Some a \<Rightarrow> a) = Inr e
      \<and> \<not> (0 \<le> e \<and> e < int (length ENTRANTS))"
  then show "api_my_rating d arg cookie = Ok200 None"
    by (simp add: api_my_rating_def)
next
  have "py_int_str ''-1'' = Inr (- 1)"
    by (simp add: py_int_str_def is_int_space_def is_digit_def digit_value_def digits_value_def)
  then show "api_my_rating d None cookie = Ok200 None"
    by (simp add: api_my_rating_def)
next
  show "(\<exists>msg. api_my_rating d arg cookie = Err400 msg)
        \<longleftrightarrow> (\<exists>err. py_int_str (case arg of None \<Rightarrow> ''-1'' | Some a \<Rightarrow> a) = Inl err)"
    by (cases "py_int_str (case arg of None \<Rightarrow> ''-1'' | Some a \<Rightarrow> a)")
      (auto simp: api_my_rating_def split: list.splits)
qed

theorem my_rating_out_of_range_witness:
  "py_int_str ''14'' = Inr 14 \<and> \<not> (0 \<le> (14::int) \<and> (14::int) < int (length ENTRANTS))
   \<and> api_my_rating init_db (Some ''14'') None = Ok200 None"
proof -
  have h: "py_int_str (case Some ''14'' of None \<Rightarrow> ''-1'' | Some a \<Rightarrow> a) = Inr 14
      \<and> \<not> (0 \<le> (14::int) \<and> (14::int) < int (length ENTRANTS))"
    by (simp add: py_int_str_def is_int_space_def is_digit_def digit_value_def digits_value_def
        ENTRANTS_def)
  with my_rating_out_of_range [of "Some ''14''" 14 init_db None] show ?thesis by simp
qed

text \<open>C3 as stated fails: a password with a leading blank differs from the secret and
  still sets the flag.\<close>

theorem admin_password_counterexample:
  "'' MASTERCHEF2025'' \<noteq> ''MASTERCHEF2025''
   \<and> admin ''MASTERCHEF2025'' init_db False POST (Some '' MASTERCHEF2025'') None
       = (True, Redirect ''admin'')"
  by (simp add: admin_def or_empty_def py_strip_def is_space_def)

text \<open>
  C3, amended. The admin-authenticate operation sets the admin session flag if and only
  if the submitted password, with leading and trailing whitespace stripped, is equal to
  the configured secret; for every other submitted string the flag stays as it was (a
  session without the flag does not get it).
\<close>

theorem admin_password_stripped:
  "fst (admin secret d is_admin POST password reset)
     = (py_strip (or_empty password) = secret \<or> is_admin)
   \<and> (fst (admin secret d False POST password reset)
        \<longleftrightarrow> py_strip (or_empty password) = secret)"
  by (simp add: admin_def)

theorem admin_password_stripped_witness:
  "fst (admin ''MASTERCHEF2025'' init_db False POST (Some ''MASTERCHEF2025 '') None)
   \<and> \<not> fst (admin ''MASTERCHEF2025'' init_db False POST (Some ''MASTERCHEF2O25'') None)"
  using admin_password_stripped [of "''MASTERCHEF2025''" init_db False "Some ''MASTERCHEF2025 ''" None]
    admin_password_stripped [of "''MASTERCHEF2025''" init_db False "Some ''MASTERCHEF2O25''" None]
  by (simp add: or_empty_def py_strip_def is_space_def)

text \<open>C4 as stated fails: the taste 3.5 is not an integer, and the submission is
  accepted and stored with taste 3.\<close>

lemma truncate_seven_halves: "truncate_rat (7 / 2) = 3"
proof -
  have "\<lfloor>7 / 2 :: rat\<rfloor> = 3" by (rule floor_unique) simp_all
  then show ?thesis by (simp add: truncate_rat_def)
qed

theorem non_integer_score_counterexample:
  "api_rate init_db (Some float_body) (Some ''device-1'') ''2025-02-09 18:00:00''
     = (\<lparr>ratings = [\<lparr>row_id = 1, entrant_index = 0, taste = 3, presentation = 4, easy = 4,
          judge = None, device_id = Some ''device-1'', one_word = None,
          created_at = ''2025-02-09 18:00:00''\<rparr>], seq = 1\<rparr>, Ok200 ())"
  by (simp add: api_rate_def float_body_def parse_rate_def request_data_def py_or_def
      clean_judge_def sanitize_one_word_def py_strip_def truncate_seven_halves ENTRANTS_def
      upsert_def score_ok_def init_db_def device_id_from_request_def)

text \<open>
  C4, amended. For every submission in which \<^verbatim>\<open>int()\<close> raises on taste, presentation
  or easy (the value is missing or null, a list or an object, NaN or an infinity, or a
  string that is not an integer literal), submitRating fails with a validation error and
  the table is left as it was. The values on which it raises are never numbers: a finite
  number with a fraction is truncated toward zero and not rejected for that.
\<close>

theorem non_integer_score_rejected:
  assumes "k \<in> {''taste'', ''presentation'', ''easy''}"
    and "dict_get (request_data body) k = Inr v"
    and "py_int v = Inl err"
  shows "api_rate d body cookie now = (d, Err400 ''Invalid payload'')
     \<and> (v = JNull \<or> v = JNaN \<or> v = JInf \<or> (\<exists>xs. v = JArr xs) \<or> (\<exists>kvs. v = JObj kvs)
          \<or> (\<exists>s. v = JStr s \<and> py_int_str s = Inl err))
     \<and> py_int (JFloat x) = Inr (truncate_rat x)"
proof -
  from parse_rate_int_fails [OF assms] obtain err' where "parse_rate (request_data body) = Inl err'"
    by blast
  then have "api_rate d body cookie now = (d, Err400 ''Invalid payload'')"
    by (simp add: api_rate_def)
  moreover from assms(3) have "v = JNull \<or> v = JNaN \<or> v = JInf \<or> (\<exists>xs. v = JArr xs)
      \<or> (\<exists>kvs. v = JObj kvs) \<or> (\<exists>s. v = JStr s \<and> py_int_str s = Inl err)"
    by (cases v) auto
  ultimately show ?thesis by simp
qed

theorem non_integer_score_rejected_witness:
  "dict_get (request_data (Some text_body)) ''taste'' = Inr (JStr ''tasty'')
   \<and> py_int (JStr ''tasty'') = Inl ValueError
   \<and> api_rate init_db (Some text_body) None ''2025-02-09 18:00:00''
       = (init_db, Err400 ''Invalid payload'')"
proof -
  have k: "''taste'' \<in> {''taste'', ''presentation'', ''easy''}" by simp
  have g: "dict_get (request_data (Some text_body)) ''taste'' = Inr (JStr ''tasty'')"
    by (simp add: text_body_def request_data_def py_or_def)
  have i: "py_int (JStr ''tasty'') = Inl ValueError"
    by (simp add: py_int_str_def is_int_space_def is_digit_def digit_value_def)
  from non_integer_score_rejected [OF k g i] g i show ?thesis by simp
qed

subsection \<open>The CSV export\<close>

lemma py_index_valid:
  "0 \<le> i \<Longrightarrow> i < int (length xs) \<Longrightarrow> py_index xs i = Inr (xs ! nat i)"
  by (simp add: py_index_def)

lemma map_err_all:
  "(\<And>x. x \<in> set xs \<Longrightarrow> f x = Inr (g x)) \<Longrightarrow> map_err f xs = Inr (map g xs)"
  by (induction xs) auto

lemma replace_quote:
  "replace_str [CHR 0x22] [CHR 0x22, CHR 0x22] s
     = concat (map (\<lambda>c. if c = CHR 0x22 then [CHR 0x22, CHR 0x22] else [c]) s)"
  by (induction s) auto

lemma q_quoted: "q (Some s) = quoted_spec s"
  by (simp add: q_def quoted_spec_def replace_quote)

lemma or_empty_case: "or_empty x = (case x of None \<Rightarrow> [] | Some s \<Rightarrow> s)"
  by (simp add: or_empty_def split: option.splits)

lemma csv_line_valid:
  assumes "valid_row r"
  shows "csv_line r = Inr (csv_line_spec r)"
proof -
  from assms have "py_index ENTRANTS (entrant_index r) = Inr (ENTRANTS ! nat (entrant_index r))"
    by (simp add: valid_row_def py_index_valid)
  then show ?thesis
    by (simp add: csv_line_def csv_fields_def csv_line_spec_def q_quoted or_empty_case)
qed

lemma str_nat_digits: "set (str_nat n) \<subseteq> set ''0123456789''"
proof (induction n rule: str_nat.induct)
  case (1 n)
  have d: "\<And>k. k < 10 \<Longrightarrow> ''0123456789'' ! k \<in> set ''0123456789''"
    by (rule nth_mem) simp
  show ?case
  proof (cases "n < 10")
    case True
    with d [of n] show ?thesis by (subst str_nat.simps) simp
  next
    case False
    have "n mod 10 < 10" by simp
    from d [OF this] 1 [OF False] False show ?thesis by (subst str_nat.simps) simp
  qed
qed

lemma str_int_unquoted: "CHR 0x22 \<notin> set (str_int i)"
proof -
  have "CHR 0x22 \<notin> set ''0123456789''" by simp
  with str_nat_digits have "\<And>n. CHR 0x22 \<notin> set (str_nat n)" by blast
  then show ?thesis by (simp add: str_int_def)
qed

lemma export_csv_valid:
  assumes "list_all valid_row (ratings d)"
  shows "export_csv d = Inr (csv_header # map csv_line_spec (export_query (ratings d)))"
proof -
  have "map_err csv_line (export_query (ratings d))
      = Inr (map csv_line_spec (export_query (ratings d)))"
  proof (rule map_err_all)
    fix r assume "r \<in> set (export_query (ratings d))"
    with assms have "valid_row r" by (simp add: export_query_def list_all_iff)
    then show "csv_line r = Inr (csv_line_spec r)" by (rule csv_line_valid)
  qed
  then show ?thesis by (simp add: export_csv_def)
qed

text \<open>
  C9. For a table whose rows all carry a valid entrant index, the export is the header
  followed by one line per row, in which entrant_name, judge, device_id and one_word
  stand between double quotes with every double quote of the text doubled, and id, taste,
  presentation and easy stand as plain decimal numbers, which hold no double quote. The
  judge \<^verbatim>\<open>O"Brien\<close> is rendered \<^verbatim>\<open>"O""Brien"\<close>.
\<close>

theorem csv_text_fields_quoted:
  assumes "\<forall>r \<in> set (ratings d). 0 \<le> entrant_index r \<and> entrant_index r < int (length ENTRANTS)"
  shows "export_csv d = Inr (csv_header # map csv_line_spec (export_query (ratings d)))
     \<and> q (Some s) = quoted_spec s
     \<and> CHR 0x22 \<notin> set (str_int i)
     \<and> q (Some (or_empty (Some obrien))) = [CHR 0x22] @ ''O'' @ [CHR 0x22, CHR 0x22] @ ''Brien''
          @ [CHR 0x22]"
proof -
  from assms have "list_all valid_row (ratings d)"
    by (simp add: list_all_iff valid_row_def)
  then have "export_csv d = Inr (csv_header # map csv_line_spec (export_query (ratings d)))"
    by (rule export_csv_valid)
  moreover have "q (Some (or_empty (Some obrien)))
      = [CHR 0x22] @ ''O'' @ [CHR 0x22, CHR 0x22] @ ''Brien'' @ [CHR 0x22]"
    by (simp add: q_def or_empty_def obrien_def)
  ultimately show ?thesis using q_quoted str_int_unquoted by simp
qed

lemma str_nat_small [simp]:
  "str_nat 12 = ''12''" "str_nat 5 = ''5''" "str_nat 4 = ''4''" "str_nat 3 = ''3''"
  by (simp_all add: str_nat.simps)

theorem csv_text_fields_quoted_witness:
  "list_all valid_row (ratings obrien_db)
   \<and> export_csv obrien_db
     = Inr [''id,entrant_name,taste,presentation,easy,judge,device_id,one_word,created_at''
              @ [CHR 0x5C, CHR ''n''],
            ''12,'' @ [CHR 0x22] @ ''Lindsay'' @ [CHR 0x22] @ '',5,4,3,''
              @ [CHR 0x22] @ ''O'' @ [CHR 0x22, CHR 0x22] @ ''Brien'' @ [CHR 0x22] @ '',''
              @ [CHR 0x22] @ ''anon'' @ [CHR 0x22] @ '','' @ [CHR 0x22, CHR 0x22]
              @ '',2025-02-09 18:00:00'' @ [CHR 0x5C, CHR ''n'']]"
proof -
  have h: "\<forall>r \<in> set (ratings obrien_db).
      0 \<le> entrant_index r \<and> entrant_index r < int (length ENTRANTS)"
    by (simp add: obrien_db_def ENTRANTS_def)
  from csv_text_fields_quoted [OF h]
  have "export_csv obrien_db
      = Inr (csv_header # map csv_line_spec (export_query (ratings obrien_db)))" by simp
  moreover have "list_all valid_row (ratings obrien_db)"
    by (simp add: obrien_db_def valid_row_def ENTRANTS_def)
  ultimately show ?thesis
    by (simp add: obrien_db_def export_query_def csv_header_def line_end_def csv_line_spec_def
        quoted_spec_def obrien_def str_int_def ENTRANTS_def)
qed

subsection \<open>Entrant lookups and the reset\<close>

lemma lb_group_index [simp]: "lb_entrant_index (lb_group rows e) = e"
  by (simp add: lb_group_def Let_def)

lemma set_leaderboard_query:
  "set (leaderboard_query rows) = lb_group rows ` entrant_index ` set rows"
  by (simp add: leaderboard_query_def)

lemma leaderboard_query_valid:
  assumes "list_all valid_row rows" "g \<in> set (leaderboard_query rows)"
  shows "0 \<le> lb_entrant_index g \<and> lb_entrant_index g < int (length ENTRANTS)"
  using assms by (auto simp: set_leaderboard_query list_all_iff valid_row_def)

lemma word_keys_index:
  "(e, w) \<in> set (word_keys rows) \<Longrightarrow> e \<in> entrant_index ` set rows"
  by (auto simp: word_keys_def map_filter_def split: option.splits if_splits)

lemma set_words_query:
  "set (words_query rows)
     = (\<lambda>(e, w). (e, w, int (count_list (word_keys rows) (e, w)))) ` set (word_keys rows)"
  by (simp add: words_query_def Let_def)

lemma words_query_valid:
  assumes "list_all valid_row rows" "(e, w, c) \<in> set (words_query rows)"
  shows "0 \<le> e \<and> e < int (length ENTRANTS)"
proof -
  from assms(2) have "(e, w) \<in> set (word_keys rows)"
    by (auto simp: set_words_query)
  then have "e \<in> entrant_index ` set rows" by (rule word_keys_index)
  with assms(1) show ?thesis by (auto simp: list_all_iff valid_row_def)
qed

lemma words_loop_valid:
  assumes "\<And>e w c. (e, w, c) \<in> set rs \<Longrightarrow> 0 \<le> e \<and> e < int (length ENTRANTS)"
  shows "words_loop rs out
     = Inr (foldl (\<lambda>acc (e, w, c). setdefault_append acc (ENTRANTS ! nat e) (w, c)) out rs)"
  using assms
proof (induction rs arbitrary: out)
  case Nil
  then show ?case by simp
next
  case (Cons x rs)
  obtain e w c where x: "x = (e, w, c)" by (cases x) auto
  with Cons.prems [of e w c] have "py_index ENTRANTS e = Inr (ENTRANTS ! nat e)"
    by (simp add: py_index_valid)
  moreover have "\<And>e w c. (e, w, c) \<in> set rs \<Longrightarrow> 0 \<le> e \<and> e < int (length ENTRANTS)"
    using Cons.prems by (meson list.set_intros(2))
  ultimately show ?case using Cons.IH x by simp
qed

lemma api_leaderboard_valid:
  assumes "list_all valid_row (ratings d)"
  shows "api_leaderboard d =
     Inr (map (\<lambda>r. \<lparr>name = ENTRANTS ! nat (lb_entrant_index r), votes = lb_votes r,
            avg_taste = round2 (or_zero (lb_avg_taste r)),
            avg_presentation = round2 (or_zero (lb_avg_presentation r)),
            avg_easy = round2 (or_zero (lb_avg_easy r)),
            avg_total = round2 (or_zero (lb_avg_total r))\<rparr>) (leaderboard_query (ratings d)))"
  unfolding api_leaderboard_def
proof (rule map_err_all)
  fix g assume "g \<in> set (leaderboard_query (ratings d))"
  with assms have "0 \<le> lb_entrant_index g \<and> lb_entrant_index g < int (length ENTRANTS)"
    by (rule leaderboard_query_valid)
  then show "lb_entry_of g = Inr \<lparr>name = ENTRANTS ! nat (lb_entrant_index g), votes = lb_votes g,
            avg_taste = round2 (or_zero (lb_avg_taste g)),
            avg_presentation = round2 (or_zero (lb_avg_presentation g)),
            avg_easy = round2 (or_zero (lb_avg_easy g)),
            avg_total = round2 (or_zero (lb_avg_total g))\<rparr>"
    by (simp add: lb_entry_of_def py_index_valid)
qed

lemma api_words_valid:
  assumes "list_all valid_row (ratings d)"
  shows "api_words d
     = Inr (foldl (\<lambda>acc (e, w, c). setdefault_append acc (ENTRANTS ! nat e) (w, c)) []
          (words_query (ratings d)))"
  unfolding api_words_def using words_query_valid [OF assms] by (rule words_loop_valid)

text \<open>
  C10. In every state the application reaches (the table starts empty, and only the
  validated submit path and the reset write to it), every stored row has an entrant index
  in \<open>[0, len(ENTRANTS))\<close>; so each lookup \<^verbatim>\<open>ENTRANTS[entrant_index]\<close> is in bounds,
  and the leaderboard, the word counts and the CSV export return without raising.
\<close>

theorem stored_index_in_range:
  assumes "reachable d"
  shows "(\<forall>r \<in> set (ratings d).
        0 \<le> entrant_index r \<and> entrant_index r < int (length ENTRANTS)
        \<and> py_index ENTRANTS (entrant_index r) = Inr (ENTRANTS ! nat (entrant_index r)))
     \<and> (\<exists>out. api_leaderboard d = Inr out)
     \<and> (\<exists>out. api_words d = Inr out)
     \<and> (\<exists>out. export_csv d = Inr out)"
proof -
  from assms have v: "list_all valid_row (ratings d)"
    using reachable_invariant by blast
  then have "\<forall>r \<in> set (ratings d).
        0 \<le> entrant_index r \<and> entrant_index r < int (length ENTRANTS)
        \<and> py_index ENTRANTS (entrant_index r) = Inr (ENTRANTS ! nat (entrant_index r))"
    by (simp add: list_all_iff valid_row_def py_index_valid)
  moreover from v have "\<exists>out. api_leaderboard d = Inr out"
    by (simp add: api_leaderboard_valid)
  moreover from v have "\<exists>out. api_words d = Inr out"
    by (simp add: api_words_valid)
  moreover from v have "\<exists>out. export_csv d = Inr out"
    by (simp add: export_csv_valid)
  ultimately show ?thesis by blast
qed

theorem stored_index_in_range_witness:
  "reachable (fst (api_rate init_db (Some first_body) None ''2025-02-09 18:00:00''))
   \<and> map entrant_index
        (ratings (fst (api_rate init_db (Some first_body) None ''2025-02-09 18:00:00''))) = [3]
   \<and> (\<exists>out. api_leaderboard
         (fst (api_rate init_db (Some first_body) None ''2025-02-09 18:00:00'')) = Inr out)
   \<and> (\<exists>out. api_words
         (fst (api_rate init_db (Some first_body) None ''2025-02-09 18:00:00'')) = Inr out)
   \<and> (\<exists>out. export_csv
         (fst (api_rate init_db (Some first_body) None ''2025-02-09 18:00:00'')) = Inr out)"
proof -
  let ?d = "fst (api_rate init_db (Some first_body) None ''2025-02-09 18:00:00'')"
  have r: "reachable ?d" by (rule reachable.rate [OF reachable.start])
  have "map entrant_index (ratings ?d) = [3]"
    by (simp add: api_rate_def parse_first_body ENTRANTS_def upsert_def score_ok_def init_db_def
        device_id_from_request_def)
  with stored_index_in_range [OF r] r show ?thesis by blast
qed

text \<open>
  C8. With the admin flag set, the reset leaves the table without rows: the leaderboard
  and the word counts are empty, no rating is found for any entrant and device, the export
  holds its header line only and the admin page lists nothing. Without the flag the reset
  leaves the database as it is and redirects to the admin page, which shows the login
  form to a session without the flag.
\<close>

theorem reset_requires_admin:
  "ratings (fst (admin_reset d True)) = []
   \<and> api_leaderboard (fst (admin_reset d True)) = Inr []
   \<and> api_words (fst (admin_reset d True)) = Inr []
   \<and> api_my_rating (fst (admin_reset d True)) arg cookie \<noteq> Ok200 (Some found)
   \<and> export_csv (fst (admin_reset d True)) = Inr [csv_header]
   \<and> admin secret (fst (admin_reset d True)) True GET password reset
       = (True, ResultsTemplate [] [] (reset = Some ''1''))
   \<and> admin_reset d False = (d, Redirect ''admin'')
   \<and> admin secret d False GET password reset = (False, LoginTemplate None)"
proof -
  have e: "ratings (fst (admin_reset d True)) = []" by (simp add: admin_reset_def)
  have q: "leaderboard_query [] = []" "words_query [] = []" "export_query [] = []"
    by (simp_all add: leaderboard_query_def words_query_def word_keys_def map_filter_def
        export_query_def)
  have "api_my_rating (fst (admin_reset d True)) arg cookie \<noteq> Ok200 (Some found)"
    by (simp add: api_my_rating_def e split: sum.splits)
  moreover have "admin secret (fst (admin_reset d True)) True GET password reset
       = (True, ResultsTemplate [] [] (reset = Some ''1''))"
    by (simp add: admin_def e q)
  ultimately show ?thesis
    by (simp add: e q api_leaderboard_def api_words_def export_csv_def admin_reset_def
        admin_def)
qed

theorem reset_requires_admin_witness:
  "ratings (fst (admin_reset obrien_db True)) = []
   \<and> export_csv (fst (admin_reset obrien_db True)) = Inr [csv_header]
   \<and> ratings obrien_db \<noteq> []
   \<and> admin_reset obrien_db False = (obrien_db, Redirect ''admin'')"
  using reset_requires_admin [of obrien_db] by (simp add: obrien_db_def)

subsection \<open>The leaderboard\<close>

lemma round_half_even_bounds:
  "\<lfloor>y\<rfloor> \<le> round_half_even y \<and> round_half_even y \<le> \<lfloor>y\<rfloor> + 1"
  by (simp add: round_half_even_def Let_def)

lemma round_half_even_near: "\<bar>of_int (round_half_even y) - y\<bar> \<le> 1 / 2"
proof -
  have "of_int \<lfloor>y\<rfloor> \<le> y" "y < of_int \<lfloor>y\<rfloor> + 1" by linarith+
  then show ?thesis by (auto simp: round_half_even_def Let_def)
qed

lemma round_half_even_mono:
  assumes "x \<le> y"
  shows "round_half_even x \<le> round_half_even y"
proof -
  from assms have "\<lfloor>x\<rfloor> \<le> \<lfloor>y\<rfloor>" by (rule floor_mono)
  then consider "\<lfloor>x\<rfloor> + 1 \<le> \<lfloor>y\<rfloor>" | "\<lfloor>x\<rfloor> = \<lfloor>y\<rfloor>" by linarith
  then show ?thesis
  proof cases
    case 1
    with round_half_even_bounds [of x] round_half_even_bounds [of y] show ?thesis by linarith
  next
    case 2
    with assms show ?thesis by (auto simp: round_half_even_def Let_def)
  qed
qed

lemma round2_mono: "x \<le> y \<Longrightarrow> round2 x \<le> round2 y"
proof -
  assume "x \<le> y"
  then have "x * 100 \<le> y * 100" by simp
  then have "round_half_even (x * 100) \<le> round_half_even (y * 100)"
    by (rule round_half_even_mono)
  then show ?thesis by (simp add: round2_def divide_right_mono)
qed

lemma pow2_powi: "pow2 e = 2 powi e"
  by (simp add: pow2_def power_int_def inverse_eq_divide power_one_over)

lemma pow2_pos [simp]: "0 < pow2 e"
  by (simp add: pow2_powi zero_less_power_int)

lemma pow2_nonzero [simp]: "pow2 e \<noteq> 0"
  using pow2_pos [of e] by linarith

lemma pow2_add: "pow2 (a + b) = pow2 a * pow2 b"
  by (simp add: pow2_powi power_int_add)

lemma pow2_mono: "a \<le> b \<Longrightarrow> pow2 a \<le> pow2 b"
  by (simp add: pow2_powi power_int_increasing)

lemma pow2_nat: "0 \<le> e \<Longrightarrow> pow2 e = of_int (2 ^ nat e)"
  by (simp add: pow2_def)

lemma exponent_lower:
  assumes "x \<noteq> 0"
  shows "pow2 (exponent x) \<le> \<bar>x\<bar>"
proof -
  obtain p q where pq: "quotient_of x = (p, q)" by (cases "quotient_of x") auto
  then have q: "0 < q" and x: "x = of_int p / of_int q"
    by (rule quotient_of_denom_pos, rule quotient_of_div)
  with assms have p: "0 < \<bar>p\<bar>" by auto
  let ?d = "bitlen \<bar>p\<bar> - bitlen q"
  have "pow2 (?d - 1) \<le> \<bar>x\<bar>"
  proof -
    from bitlen_bounds [OF p] have "(2::int) ^ nat (bitlen \<bar>p\<bar> - 1) \<le> \<bar>p\<bar>" by simp
    then have "(of_int (2 ^ nat (bitlen \<bar>p\<bar> - 1)) :: rat) \<le> of_int \<bar>p\<bar>"
      by (simp only: of_int_le_iff)
    moreover from p have "0 \<le> bitlen \<bar>p\<bar> - 1"
      using bitlen_eq_zero_iff [of "\<bar>p\<bar>"] bitlen_nonneg [of "\<bar>p\<bar>"] by linarith
    ultimately have a: "pow2 (bitlen \<bar>p\<bar> - 1) \<le> of_int \<bar>p\<bar>" by (simp add: pow2_nat)
    from bitlen_bounds [OF q] have "q < 2 ^ nat (bitlen q)" by simp
    then have "(of_int q :: rat) < of_int (2 ^ nat (bitlen q))" by (simp only: of_int_less_iff)
    then have b: "(of_int q :: rat) \<le> pow2 (bitlen q)"
      by (simp add: pow2_nat bitlen_nonneg)
    have "pow2 (?d - 1) * pow2 (bitlen q) = pow2 (bitlen \<bar>p\<bar> - 1)"
      by (simp add: pow2_add [symmetric])
    then have "pow2 (?d - 1) * of_int q \<le> pow2 (bitlen \<bar>p\<bar> - 1)"
      using b pow2_pos [of "?d - 1"] by (metis mult_left_mono less_imp_le)
    with a have "pow2 (?d - 1) * of_int q \<le> of_int \<bar>p\<bar>" by linarith
    with q have "pow2 (?d - 1) \<le> of_int \<bar>p\<bar> / of_int q"
      by (simp add: pos_le_divide_eq)
    also have "of_int \<bar>p\<bar> / of_int q = \<bar>x\<bar>" using q by (simp add: x)
    finally show ?thesis .
  qed
  then show ?thesis by (simp add: exponent_def pq Let_def)
qed

lemma exponent_upper:
  assumes "x \<noteq> 0"
  shows "\<bar>x\<bar> < pow2 (exponent x + 1)"
proof -
  obtain p q where pq: "quotient_of x = (p, q)" by (cases "quotient_of x") auto
  then have q: "0 < q" and x: "x = of_int p / of_int q"
    by (rule quotient_of_denom_pos, rule quotient_of_div)
  with assms have p: "0 < \<bar>p\<bar>" by auto
  let ?d = "bitlen \<bar>p\<bar> - bitlen q"
  have ax: "\<bar>x\<bar> = of_int \<bar>p\<bar> / of_int q" using q by (simp add: x)
  have "\<bar>x\<bar> < pow2 (?d + 1)"
  proof -
    from bitlen_bounds [OF p] have "\<bar>p\<bar> < 2 ^ nat (bitlen \<bar>p\<bar>)" by simp
    then have "(of_int \<bar>p\<bar> :: rat) < of_int (2 ^ nat (bitlen \<bar>p\<bar>))"
      by (simp only: of_int_less_iff)
    then have a: "(of_int \<bar>p\<bar> :: rat) < pow2 (bitlen \<bar>p\<bar>)"
      by (simp add: pow2_nat bitlen_nonneg)
    from bitlen_bounds [OF q] have "(2::int) ^ nat (bitlen q - 1) \<le> q" by simp
    then have "(of_int (2 ^ nat (bitlen q - 1)) :: rat) \<le> of_int q"
      by (simp only: of_int_le_iff)
    moreover from q have "0 \<le> bitlen q - 1"
      using bitlen_eq_zero_iff [of q] bitlen_nonneg [of q] by linarith
    ultimately have b: "pow2 (bitlen q - 1) \<le> of_int q" by (simp add: pow2_nat)
    have "pow2 (?d + 1) * pow2 (bitlen q - 1) = pow2 (bitlen \<bar>p\<bar>)"
      by (simp add: pow2_add [symmetric])
    moreover have "pow2 (?d + 1) * pow2 (bitlen q - 1) \<le> pow2 (?d + 1) * of_int q"
      using b less_imp_le [OF pow2_pos [of "?d + 1"]] by (intro mult_left_mono)
    ultimately have "of_int \<bar>p\<bar> < pow2 (?d + 1) * of_int q" using a by linarith
    with q show ?thesis by (simp add: ax pos_divide_less_eq)
  qed
  then show ?thesis by (auto simp: exponent_def pq Let_def)
qed

lemma to_double_error:
  "\<bar>to_double x - x\<bar> \<le> pow2 (exponent x - 53)"
proof (cases "x = 0")
  case True
  then show ?thesis by (simp add: to_double_def less_imp_le)
next
  case False
  let ?u = "pow2 (exponent x - 52)"
  let ?m = "round_half_even (\<bar>x\<bar> / ?u)"
  have u: "0 < ?u" by simp
  have h: "pow2 (exponent x - 53) = ?u / 2"
    using pow2_add [of "exponent x - 53" 1] by (simp add: pow2_def)
  from round_half_even_near [of "\<bar>x\<bar> / ?u"]
  have "\<bar>of_int ?m - \<bar>x\<bar> / ?u\<bar> * ?u \<le> 1 / 2 * ?u"
    using u by (simp add: mult_right_mono)
  moreover have "\<bar>of_int ?m - \<bar>x\<bar> / ?u\<bar> * ?u = \<bar>of_int ?m * ?u - \<bar>x\<bar>\<bar>"
  proof -
    have "\<bar>of_int ?m - \<bar>x\<bar> / ?u\<bar> * ?u = \<bar>(of_int ?m - \<bar>x\<bar> / ?u) * ?u\<bar>"
      by (simp only: abs_mult abs_of_pos [OF u])
    also have "(of_int ?m - \<bar>x\<bar> / ?u) * ?u = of_int ?m * ?u - \<bar>x\<bar>"
      using u by (simp add: field_simps)
    finally show ?thesis .
  qed
  ultimately have e: "\<bar>of_int ?m * ?u - \<bar>x\<bar>\<bar> \<le> ?u / 2" by simp
  show ?thesis
  proof (cases "0 < x")
    case True
    with False e show ?thesis by (simp add: to_double_def Let_def h)
  next
    case neg: False
    with False have "x < 0" by simp
    then have "\<bar>- (of_int ?m * ?u) - x\<bar> = \<bar>of_int ?m * ?u - \<bar>x\<bar>\<bar>" by simp
    with False neg e show ?thesis by (simp add: to_double_def Let_def h)
  qed
qed

lemma round_half_even_int [simp]: "round_half_even (of_int j) = j"
  by (simp add: round_half_even_def)

lemma to_double_small_int:
  assumes "\<bar>k\<bar> < 2 ^ 53"
  shows "to_double (of_int k) = of_int k"
proof (cases "k = 0")
  case True
  then show ?thesis by (simp add: to_double_def)
next
  case False
  let ?x = "of_int k :: rat"
  let ?e = "exponent ?x"
  from False have x0: "?x \<noteq> 0" by simp
  have "?e \<le> 52"
  proof (rule ccontr)
    assume "\<not> ?e \<le> 52"
    then have "pow2 53 \<le> pow2 ?e" by (simp add: pow2_mono)
    also have "\<dots> \<le> \<bar>?x\<bar>" using x0 by (rule exponent_lower)
    finally have "(2::rat) ^ 53 \<le> of_int \<bar>k\<bar>" by (simp add: pow2_def)
    then have "(of_int (2 ^ 53) :: rat) \<le> of_int \<bar>k\<bar>" by simp
    then have "(2::int) ^ 53 \<le> \<bar>k\<bar>" by (simp only: of_int_le_iff)
    with assms show False by simp
  qed
  then have n: "0 \<le> 52 - ?e" by simp
  have inv: "pow2 (52 - ?e) * pow2 (?e - 52) = 1"
    by (simp add: pow2_add [symmetric] pow2_def)
  then have "\<bar>?x\<bar> / pow2 (?e - 52) = \<bar>?x\<bar> * pow2 (52 - ?e)"
    by (simp add: field_simps)
  also have "\<dots> = of_int (\<bar>k\<bar> * 2 ^ nat (52 - ?e))"
    using n by (simp add: pow2_nat)
  finally have m: "round_half_even (\<bar>?x\<bar> / pow2 (?e - 52)) = \<bar>k\<bar> * 2 ^ nat (52 - ?e)"
    by (simp only: round_half_even_int)
  have "of_int (\<bar>k\<bar> * 2 ^ nat (52 - ?e)) * pow2 (?e - 52) = \<bar>?x\<bar> * (pow2 (52 - ?e) * pow2 (?e - 52))"
    using n by (simp add: pow2_nat)
  then have v: "of_int (\<bar>k\<bar> * 2 ^ nat (52 - ?e)) * pow2 (?e - 52) = \<bar>?x\<bar>"
    by (simp only: inv mult_1_right)
  have "to_double ?x =
      (if 0 < ?x then of_int (round_half_even (\<bar>?x\<bar> / pow2 (?e - 52))) * pow2 (?e - 52)
       else - (of_int (round_half_even (\<bar>?x\<bar> / pow2 (?e - 52))) * pow2 (?e - 52)))"
    using x0 by (simp only: to_double_def Let_def if_False)
  also have "\<dots> = (if 0 < ?x then \<bar>?x\<bar> else - \<bar>?x\<bar>)"
    by (simp only: m v)
  also have "\<dots> = ?x" by simp
  finally show ?thesis .
qed

lemma to_double_relative:
  "\<bar>to_double x - x\<bar> \<le> \<bar>x\<bar> / 2 ^ 53"
proof (cases "x = 0")
  case True
  then show ?thesis by (simp add: to_double_def)
next
  case False
  have "pow2 (exponent x - 53) = pow2 (exponent x) * pow2 (- 53)"
    using pow2_add [of "exponent x" "- 53"] by simp
  also have "\<dots> \<le> \<bar>x\<bar> * pow2 (- 53)"
    using exponent_lower [OF False] by (simp add: mult_right_mono less_imp_le)
  also have "\<dots> = \<bar>x\<bar> / 2 ^ 53" by (simp add: pow2_def)
  finally show ?thesis using to_double_error [of x] by linarith
qed

lemma round_half_even_of_near:
  fixes n s :: int and y :: rat
  assumes n: "0 < n" and close: "\<bar>y - of_int s / of_int n\<bar> < 1 / (200 * of_int n)"
  shows "\<bar>of_int (round_half_even (y * 100)) - 100 * (of_int s / of_int n)\<bar> \<le> (1 / 2 :: rat)"
proof -
  define k where "k = round_half_even (y * 100)"
  define x :: rat where "x = of_int s / of_int n"
  from n have N: "(0::rat) < of_int n" by simp
  have near: "\<bar>of_int k - y * 100\<bar> \<le> 1 / 2"
    unfolding k_def by (rule round_half_even_near)
  from close have "\<bar>y - x\<bar> * 100 < 1 / (200 * of_int n) * 100"
    unfolding x_def by (simp only: mult_strict_right_mono zero_less_numeral)
  then have c: "\<bar>y * 100 - 100 * x\<bar> < 1 / (2 * of_int n)" by (simp add: abs_if split: if_splits)
  have up: "of_int k - 100 * x \<le> 1 / 2"
  proof -
    have J: "of_int k - 1 / 2 - 100 * x = of_int ((2 * k - 1) * n - 200 * s) / (2 * of_int n)"
      using N by (simp add: x_def field_simps)
    show ?thesis
    proof (cases "1 \<le> (2 * k - 1) * n - 200 * s")
      case True
      then have "(1::rat) \<le> of_int ((2 * k - 1) * n - 200 * s)" by (simp only: of_int_1_le_iff)
      then have "(1::rat) / (2 * of_int n) \<le> of_int ((2 * k - 1) * n - 200 * s) / (2 * of_int n)"
        using N by (intro divide_right_mono) simp_all
      with J have "1 / (2 * of_int n) \<le> of_int k - 1 / 2 - 100 * x" by simp
      with near c show ?thesis by linarith
    next
      case False
      then have "(2 * k - 1) * n - 200 * s \<le> 0" by simp
      then have "(of_int ((2 * k - 1) * n - 200 * s) :: rat) \<le> 0" by (simp only: of_int_le_0_iff)
      then have "of_int ((2 * k - 1) * n - 200 * s) / (2 * of_int n) \<le> (0::rat)"
        using N by (simp add: divide_le_0_iff)
      with J show ?thesis by linarith
    qed
  qed
  have low: "100 * x - of_int k \<le> 1 / 2"
  proof -
    have J: "100 * x - of_int k - 1 / 2 = of_int (200 * s - (2 * k + 1) * n) / (2 * of_int n)"
      using N by (simp add: x_def field_simps)
    show ?thesis
    proof (cases "1 \<le> 200 * s - (2 * k + 1) * n")
      case True
      then have "(1::rat) \<le> of_int (200 * s - (2 * k + 1) * n)" by (simp only: of_int_1_le_iff)
      then have "(1::rat) / (2 * of_int n) \<le> of_int (200 * s - (2 * k + 1) * n) / (2 * of_int n)"
        using N by (intro divide_right_mono) simp_all
      with J have "1 / (2 * of_int n) \<le> 100 * x - of_int k - 1 / 2" by simp
      with near c show ?thesis by linarith
    next
      case False
      then have "200 * s - (2 * k + 1) * n \<le> 0" by simp
      then have "(of_int (200 * s - (2 * k + 1) * n) :: rat) \<le> 0" by (simp only: of_int_le_0_iff)
      then have "of_int (200 * s - (2 * k + 1) * n) / (2 * of_int n) \<le> (0::rat)"
        using N by (simp add: divide_le_0_iff)
      with J show ?thesis by linarith
    qed
  qed
  from up low show ?thesis unfolding k_def x_def by linarith
qed

lemma or_zero_id [simp]: "or_zero x = x"
  by (simp add: or_zero_def)

lemma distinct_ENTRANTS: "distinct ENTRANTS"
  by (simp add: ENTRANTS_def)

lemma entrant_name_inj:
  assumes "0 \<le> i" "i < int (length ENTRANTS)" "0 \<le> j" "j < int (length ENTRANTS)"
    and "ENTRANTS ! nat i = ENTRANTS ! nat j"
  shows "i = j"
proof -
  from assms have "nat i < length ENTRANTS" "nat j < length ENTRANTS" by linarith+
  with assms(5) distinct_ENTRANTS have "nat i = nat j"
    by (simp add: nth_eq_iff_index_eq)
  with assms(1,3) show ?thesis by simp
qed

lemma leaderboard_query_indices:
  "distinct (map lb_entrant_index (leaderboard_query rows))"
  "lb_entrant_index ` set (leaderboard_query rows) = entrant_index ` set rows"
proof -
  let ?idx = "sort (remdups (map entrant_index rows))"
  have "map lb_entrant_index (map (lb_group rows) ?idx) = ?idx"
    by (simp add: comp_def)
  then have d: "distinct (map lb_entrant_index (map (lb_group rows) ?idx))" by simp
  then have "distinct (map (lb_group rows) ?idx)
      \<and> inj_on lb_entrant_index (set (map (lb_group rows) ?idx))"
    by (simp only: distinct_map)
  then show "distinct (map lb_entrant_index (leaderboard_query rows))"
    by (simp add: leaderboard_query_def distinct_map)
  show "lb_entrant_index ` set (leaderboard_query rows) = entrant_index ` set rows"
    by (simp add: set_leaderboard_query image_image)
qed

lemma leaderboard_query_sorted:
  "sorted_wrt (\<lambda>a b. lb_avg_total b \<le> lb_avg_total a) (leaderboard_query rows)"
proof -
  have "sorted (map (\<lambda>g. - lb_avg_total g) (leaderboard_query rows))"
    by (simp add: leaderboard_query_def)
  then show ?thesis by (simp add: sorted_wrt_map)
qed

lemma reachable_submit_all: "reachable d \<Longrightarrow> reachable (submit_all d reqs)"
  unfolding submit_all_def
  by (induction reqs arbitrary: d) (auto intro: reachable.rate)

lemma upsert_keeps_checked:
  assumes "upsert d e t p ea j dev w now = Inr d'" "list_all checked_row (ratings d)"
  shows "list_all checked_row (ratings d')"
  using assms by (auto simp: upsert_def list_all_iff checked_row_def split: if_splits)

lemma reachable_checked: "reachable d \<Longrightarrow> list_all checked_row (ratings d)"
proof (induction rule: reachable.induct)
  case start
  then show ?case by (simp add: init_db_def)
next
  case (rate d body cookie now)
  from api_rate_cases [of d body cookie now] show ?case
  proof (elim disjE exE conjE)
    fix msg assume "api_rate d body cookie now = (d, Err400 msg)"
    with rate.IH show ?thesis by simp
  next
    fix e t p ea j w d'
    assume "upsert d e t p ea j (device_id_from_request cookie) w now = Inr d'"
      "api_rate d body cookie now = (d', Ok200 ())"
    with rate.IH upsert_keeps_checked show ?thesis by auto
  qed
next
  case (reset d is_admin)
  then show ?case by (simp add: admin_reset_def)
qed

lemma sum_list_bounds:
  fixes xs :: "int list"
  assumes "\<forall>v \<in> set xs. a \<le> v \<and> v \<le> b"
  shows "a * int (length xs) \<le> sum_list xs \<and> sum_list xs \<le> b * int (length xs)"
  using assms by (induction xs) (auto simp: algebra_simps)

lemma avg_rounded:
  assumes ne: "xs \<noteq> []" and rng: "\<forall>v \<in> set xs. 1 \<le> v \<and> v \<le> 15"
    and len: "length xs < 2 ^ 40"
  shows "is_rounded2 (mean_spec xs) (round2 (avg xs))"
proof -
  define s where "s = sum_list xs"
  define n where "n = int (length xs)"
  define x :: rat where "x = of_int s / of_int n"
  from ne have n0: "0 < n" by (simp add: n_def)
  from len have "n < 2 ^ 40" unfolding n_def by (metis of_nat_less_iff of_nat_numeral of_nat_power)
  then have n40: "n < 1099511627776" by simp
  from sum_list_bounds [OF rng] have sb: "n \<le> s" "s \<le> 15 * n" by (simp_all add: s_def n_def)
  from n0 n40 sb have "\<bar>s\<bar> < 2 ^ 53" "\<bar>n\<bar> < 2 ^ 53" by simp_all
  then have ts: "to_double (of_int s) = of_int s" and tn: "to_double (of_int n) = of_int n"
    by (simp_all only: to_double_small_int)
  have a: "avg xs = to_double x"
    using ts tn by (simp add: avg_def x_def s_def n_def)
  have N: "(0::rat) < of_int n" using n0 by simp
  have x0: "0 \<le> x" using sb n0 by (simp add: x_def)
  have "of_int s \<le> (15 * of_int n :: rat)"
    using sb(2) by (metis of_int_le_iff of_int_mult of_int_numeral)
  then have x15: "x \<le> 15" using N by (simp add: x_def pos_divide_le_eq)
  have "\<bar>to_double x - x\<bar> \<le> \<bar>x\<bar> / 2 ^ 53" by (rule to_double_relative)
  also have "\<dots> \<le> 15 / 2 ^ 53" using x0 x15 by (simp add: divide_right_mono)
  also have "\<dots> < 1 / (200 * 1099511627776)" by simp
  also have "\<dots> < 1 / (200 * of_int n)"
  proof -
    from n40 have "(of_int n :: rat) < 1099511627776"
      by (metis of_int_less_iff of_int_numeral)
    then have "(200 * of_int n :: rat) < 200 * 1099511627776" by simp
    with N show ?thesis by (intro divide_strict_left_mono) simp_all
  qed
  finally have close: "\<bar>to_double x - of_int s / of_int n\<bar> < 1 / (200 * of_int n)"
    by (simp add: x_def)
  from round_half_even_of_near [OF n0 close]
  have k: "\<bar>of_int (round_half_even (to_double x * 100)) - 100 * x\<bar> \<le> 1 / 2"
    by (simp add: x_def)
  have m: "mean_spec xs = x" by (simp add: mean_spec_def x_def s_def n_def)
  from k have "\<bar>of_int (round_half_even (to_double x * 100)) / 100 - x\<bar> \<le> 1 / 200"
    by linarith
  then show ?thesis by (simp add: is_rounded2_def round2_def a m)
qed

text \<open>Forty scores with sum 107: the exact mean 2.675 lies halfway between two
  hundredths, the double nearest to it lies below, and the value shown is 2.67.\<close>

lemma avg_tie_example:
  "mean_spec (replicate 13 2 @ replicate 27 3) = 107 / 40
   \<and> round2 (avg (replicate 13 2 @ replicate 27 3)) = 267 / 100"
  by code_simp

lemma entry_spec_group:
  assumes chk: "list_all checked_row rows" and len: "length rows < 2 ^ 40"
    and i: "i \<in> entrant_index ` set rows"
  shows "entry_spec rows i
     \<lparr>name = ENTRANTS ! nat i, votes = lb_votes (lb_group rows i),
       avg_taste = round2 (or_zero (lb_avg_taste (lb_group rows i))),
       avg_presentation = round2 (or_zero (lb_avg_presentation (lb_group rows i))),
       avg_easy = round2 (or_zero (lb_avg_easy (lb_group rows i))),
       avg_total = round2 (or_zero (lb_avg_total (lb_group rows i)))\<rparr>"
proof -
  let ?g = "filter (\<lambda>r. entrant_index r = i) rows"
  from i have ne: "?g \<noteq> []" by (auto simp: filter_empty_conv)
  have "length ?g \<le> length rows" by simp
  with len have l: "length ?g < 2 ^ 40" by linarith
  from chk have c: "\<forall>r \<in> set ?g. checked_row r" by (simp add: list_all_iff)
  have t: "is_rounded2 (mean_spec (map taste ?g)) (round2 (avg (map taste ?g)))"
    using ne l c by (intro avg_rounded) (auto simp: checked_row_def score_ok_def)
  have p: "is_rounded2 (mean_spec (map presentation ?g)) (round2 (avg (map presentation ?g)))"
    using ne l c by (intro avg_rounded) (auto simp: checked_row_def score_ok_def)
  have e: "is_rounded2 (mean_spec (map easy ?g)) (round2 (avg (map easy ?g)))"
    using ne l c by (intro avg_rounded) (auto simp: checked_row_def score_ok_def)
  have tot: "is_rounded2 (mean_spec (map (\<lambda>r. taste r + presentation r + easy r) ?g))
      (round2 (avg (map (\<lambda>r. taste r + presentation r + easy r) ?g)))"
    using ne l c by (intro avg_rounded) (auto simp: checked_row_def score_ok_def)
  from t p e tot show ?thesis
    by (simp add: entry_spec_def lb_group_def Let_def row_total_def [abs_def])
qed

text \<open>
  C5. For every table the application reaches (with fewer than \<open>2^40\<close> rows, so that
  the error of the double division stays below the rounding step), the leaderboard has
  exactly one entry for each entrant with at least one row and none for the others; the
  entry holds the entrant's name, the number of its rows and the means of taste,
  presentation, easy and of taste + presentation + easy over its rows, each rounded to 2
  decimal places; the entries are in descending order of avg_total.
\<close>

theorem leaderboard_one_entry_per_voted_entrant:
  assumes "reachable d" and "length (ratings d) < 2 ^ 40"
  shows "\<exists>out. api_leaderboard d = Inr out
     \<and> distinct (map name out)
     \<and> set (map name out) = (\<lambda>r. ENTRANTS ! nat (entrant_index r)) ` set (ratings d)
     \<and> (\<forall>i \<in> entrant_index ` set (ratings d). \<exists>e \<in> set out. entry_spec (ratings d) i e)
     \<and> (\<forall>e \<in> set out. \<exists>i \<in> entrant_index ` set (ratings d). entry_spec (ratings d) i e)
     \<and> sorted_wrt (\<lambda>a b. avg_total b \<le> avg_total a) out"
proof -
  let ?rows = "ratings d"
  let ?qs = "leaderboard_query ?rows"
  let ?render = "\<lambda>r. \<lparr>name = ENTRANTS ! nat (lb_entrant_index r), votes = lb_votes r,
            avg_taste = round2 (or_zero (lb_avg_taste r)),
            avg_presentation = round2 (or_zero (lb_avg_presentation r)),
            avg_easy = round2 (or_zero (lb_avg_easy r)),
            avg_total = round2 (or_zero (lb_avg_total r))\<rparr>"
  let ?out = "map ?render ?qs"
  from assms(1) have v: "list_all valid_row ?rows" using reachable_invariant by blast
  then have range: "\<forall>r \<in> set ?rows.
      0 \<le> entrant_index r \<and> entrant_index r < int (length ENTRANTS)"
    by (simp add: list_all_iff valid_row_def)
  from assms(1) have chk: "list_all checked_row ?rows" by (rule reachable_checked)
  from v have out: "api_leaderboard d = Inr ?out" by (rule api_leaderboard_valid)
  have names: "map name ?out = map (\<lambda>i. ENTRANTS ! nat i) (map lb_entrant_index ?qs)"
    by (simp add: comp_def)
  have idx: "set (map lb_entrant_index ?qs) = entrant_index ` set ?rows"
    using leaderboard_query_indices(2) [of ?rows] by simp
  have "inj_on (\<lambda>i. ENTRANTS ! nat i) (set (map lb_entrant_index ?qs))"
    unfolding idx using range by (auto intro!: inj_onI entrant_name_inj)
  with leaderboard_query_indices(1) [of ?rows] have d: "distinct (map name ?out)"
    unfolding names by (simp only: distinct_map)
  have s: "set (map name ?out) = (\<lambda>r. ENTRANTS ! nat (entrant_index r)) ` set ?rows"
  proof -
    have "set (map name ?out) = (\<lambda>i. ENTRANTS ! nat i) ` (lb_entrant_index ` set ?qs)"
      by (simp add: image_image)
    also have "\<dots> = (\<lambda>i. ENTRANTS ! nat i) ` (entrant_index ` set ?rows)"
      by (simp only: leaderboard_query_indices(2))
    also have "\<dots> = (\<lambda>r. ENTRANTS ! nat (entrant_index r)) ` set ?rows"
      by (simp add: image_image)
    finally show ?thesis .
  qed
  have mem: "set ?out = (\<lambda>i. ?render (lb_group ?rows i)) ` entrant_index ` set ?rows"
    by (simp add: set_leaderboard_query image_image)
  have ent: "\<And>i. i \<in> entrant_index ` set ?rows
      \<Longrightarrow> entry_spec ?rows i (?render (lb_group ?rows i))"
    using entry_spec_group [OF chk assms(2)] by simp
  have a: "\<forall>i \<in> entrant_index ` set ?rows. \<exists>e \<in> set ?out. entry_spec ?rows i e"
    unfolding mem using ent by blast
  have b: "\<forall>e \<in> set ?out. \<exists>i \<in> entrant_index ` set ?rows. entry_spec ?rows i e"
    unfolding mem using ent by blast
  have "sorted_wrt (\<lambda>a b. avg_total (?render b) \<le> avg_total (?render a)) ?qs"
    using leaderboard_query_sorted [of ?rows]
    by (rule sorted_wrt_mono_rel [rotated]) (simp add: round2_mono)
  then have c: "sorted_wrt (\<lambda>a b. avg_total b \<le> avg_total a) ?out"
    by (simp add: sorted_wrt_map)
  from out d s a b c show ?thesis by blast
qed

theorem leaderboard_one_entry_per_voted_entrant_witness:
  "reachable lb_example
   \<and> length (ratings lb_example) = 5
   \<and> api_leaderboard lb_example =
       Inr [\<lparr>name = ''Javier'', votes = 3, avg_taste = 4, avg_presentation = 4, avg_easy = 4,
              avg_total = 12\<rparr>,
            \<lparr>name = ''Lindsay'', votes = 2, avg_taste = 5 / 2, avg_presentation = 5 / 2,
              avg_easy = 2, avg_total = 7\<rparr>]
   \<and> set (map name
          [\<lparr>name = ''Javier'', votes = 3, avg_taste = 4, avg_presentation = 4, avg_easy = 4,
              avg_total = 12\<rparr>,
            \<lparr>name = ''Lindsay'', votes = 2, avg_taste = 5 / 2, avg_presentation = 5 / 2,
              avg_easy = 2, avg_total = 7\<rparr>])
       = (\<lambda>r. ENTRANTS ! nat (entrant_index r)) ` set (ratings lb_example)"
proof -
  have r: "reachable lb_example"
    unfolding lb_example_def by (rule reachable_submit_all [OF reachable.start])
  have n: "length (ratings lb_example) = 5" by code_simp
  then have l: "length (ratings lb_example) < 2 ^ 40" by simp
  have ev: "api_leaderboard lb_example =
       Inr [\<lparr>name = ''Javier'', votes = 3, avg_taste = 4, avg_presentation = 4, avg_easy = 4,
              avg_total = 12\<rparr>,
            \<lparr>name = ''Lindsay'', votes = 2, avg_taste = 5 / 2, avg_presentation = 5 / 2,
              avg_easy = 2, avg_total = 7\<rparr>]"
    by code_simp
  from leaderboard_one_entry_per_voted_entrant [OF r l] obtain out
    where "api_leaderboard lb_example = Inr out"
      and "set (map name out) = (\<lambda>r. ENTRANTS ! nat (entrant_index r)) ` set (ratings lb_example)"
    by blast
  with ev r n show ?thesis by simp
qed

subsection \<open>The word counts\<close>

lemma map_of_setdefault_append:
  "map_of (setdefault_append out k v) k' =
     (if k' = k then Some ((case map_of out k of None \<Rightarrow> [] | Some vs \<Rightarrow> vs) @ [v])
      else map_of out k')"
proof (cases "map_of out k")
  case None
  then show ?thesis
    by (auto simp: setdefault_append_def map_add_def split: option.splits)
next
  case (Some vs)
  have "map_of (map (\<lambda>(k', vs). if k' = k then (k', vs @ [v]) else (k', vs)) out) k'
      = (if k' = k then map_option (\<lambda>vs. vs @ [v]) (map_of out k') else map_of out k')"
    by (induction out) auto
  with Some show ?thesis by (simp add: setdefault_append_def)
qed

lemma keys_setdefault_append:
  "map fst (setdefault_append out k v)
     = (if map_of out k = None then map fst out @ [k] else map fst out)"
proof -
  have "map fst (map (\<lambda>(k', vs). if k' = k then (k', vs @ [v]) else (k', vs)) out) = map fst out"
    by (induction out) auto
  then show ?thesis by (simp add: setdefault_append_def)
qed

lemma distinct_setdefault_append:
  "distinct (map fst out) \<Longrightarrow> distinct (map fst (setdefault_append out k v))"
  by (auto simp: keys_setdefault_append map_of_eq_None_iff)

lemma distinct_fold_setdefault:
  "distinct (map fst acc) \<Longrightarrow>
   distinct (map fst (foldl (\<lambda>acc (k, v). setdefault_append acc k v) acc kvs))"
  by (induction kvs arbitrary: acc) (auto simp: distinct_setdefault_append)

lemma map_of_fold_setdefault:
  "map_of (foldl (\<lambda>acc (k, v). setdefault_append acc k v) acc kvs) k =
     (if map_of acc k = None \<and> filter (\<lambda>x. fst x = k) kvs = [] then None
      else Some ((case map_of acc k of None \<Rightarrow> [] | Some vs \<Rightarrow> vs)
                 @ map snd (filter (\<lambda>x. fst x = k) kvs)))"
proof (induction kvs arbitrary: acc)
  case Nil
  then show ?case by (auto split: option.splits)
next
  case (Cons x kvs)
  obtain k' v where x: "x = (k', v)" by (cases x) auto
  show ?case
    unfolding x by (simp add: Cons.IH map_of_setdefault_append split: option.splits)
qed

lemma drop_blanks_dropWhile: "drop_blanks s = dropWhile (\<lambda>c. c = CHR '' '') s"
  by (induction s) auto

lemma sql_trim_spec: "sql_trim s = trim_blanks_spec s"
  by (simp add: sql_trim_def trim_blanks_spec_def drop_blanks_dropWhile)

lemma lower_char_spec: "lower_char c = fold_letter_spec c"
  by (cases c) (auto simp: lower_char_def fold_letter_spec_def less_eq_char_def char_of_def bit_Suc_0_iff)

lemma sql_lower_spec: "sql_lower s = map fold_letter_spec s"
  by (simp add: sql_lower_def lower_char_spec)

lemma word_keys_entrant:
  "map snd (filter (\<lambda>k. fst k = i) (word_keys rows)) = entrant_words rows i"
  by (induction rows)
    (auto simp: word_keys_def entrant_words_def map_filter_def sql_trim_spec sql_lower_spec
      split: option.splits)

lemma count_list_keys:
  "count_list ks (i, w) = count_list (map snd (filter (\<lambda>k. fst k = i) ks)) w"
  by (induction ks) auto

lemma entrant_words_mem:
  "w \<in> set (entrant_words rows i) \<longleftrightarrow> (i, w) \<in> set (word_keys rows)"
proof -
  have "set (entrant_words rows i) = snd ` {k \<in> set (word_keys rows). fst k = i}"
    by (simp add: word_keys_entrant [symmetric])
  then show ?thesis by force
qed

lemma words_query_mem:
  "(e, w, c) \<in> set (words_query rows)
     \<longleftrightarrow> w \<in> set (entrant_words rows e) \<and> c = int (count_list (entrant_words rows e) w)"
proof -
  have c: "count_list (word_keys rows) (e, w) = count_list (entrant_words rows e) w"
    by (simp add: count_list_keys [of "word_keys rows" e] word_keys_entrant)
  have "(e, w, c) \<in> set (words_query rows)
      \<longleftrightarrow> (e, w) \<in> set (word_keys rows) \<and> c = int (count_list (word_keys rows) (e, w))"
    unfolding set_words_query by force
  then show ?thesis by (simp add: c entrant_words_mem)
qed

lemma words_query_group_set:
  "set (map (\<lambda>(e, w, c). (w, c)) (filter (\<lambda>(e, w, c). e = i) (words_query rows)))
     = (\<lambda>w. (w, int (count_list (entrant_words rows i) w))) ` set (entrant_words rows i)"
  (is "?L = ?R")
proof -
  have "?L = {(w, c). (i, w, c) \<in> set (words_query rows)}" by force
  also have "\<dots> = {(w, c). w \<in> set (entrant_words rows i)
      \<and> c = int (count_list (entrant_words rows i) w)}"
    by (simp add: words_query_mem)
  also have "\<dots> = ?R" by auto
  finally show ?thesis .
qed

lemma distinct_map_sort_key:
  "distinct (map g (sort_key f xs)) = distinct (map g xs)"
  by (simp add: distinct_map)

lemma words_query_keys_distinct:
  "distinct (map (\<lambda>(e, w, c). (e, w)) (words_query rows))"
proof -
  let ?ys = "map (\<lambda>(e, w). (e, w, int (count_list (word_keys rows) (e, w))))
               (remdups (word_keys rows))"
  have "map (\<lambda>(e, w, c). (e, w)) ?ys = remdups (word_keys rows)"
    by (simp add: comp_def case_prod_unfold)
  then have "distinct (map (\<lambda>(e, w, c). (e, w)) ?ys)" by simp
  then show ?thesis by (simp only: words_query_def Let_def distinct_map_sort_key)
qed

lemma words_query_group_distinct:
  "distinct (map fst (map (\<lambda>(e, w, c). (w, c))
     (filter (\<lambda>(e, w, c). e = i) (words_query rows))))"
proof -
  let ?zs = "filter (\<lambda>(e, w, c). e = i) (words_query rows)"
  from words_query_keys_distinct [of rows]
  have "distinct (map (\<lambda>(e, w, c). (e, w)) ?zs)" by (rule distinct_map_filter)
  then have "distinct ?zs" "inj_on (\<lambda>(e, w, c). (e, w)) (set ?zs)"
    by (simp_all add: distinct_map)
  moreover from this(2) have "inj_on (\<lambda>(e, w, c). w) (set ?zs)"
    by (auto simp: inj_on_def)
  ultimately have "distinct (map (\<lambda>(e, w, c). w) ?zs)" by (simp add: distinct_map)
  then show ?thesis by (simp add: comp_def case_prod_unfold)
qed

lemma words_query_group_sorted:
  "sorted_wrt (\<lambda>a b. snd b < snd a \<or> (snd a = snd b \<and> fst a \<le> fst b))
     (map (\<lambda>(e, w, c). (w, c)) (filter (\<lambda>(e, w, c). e = i) (words_query rows)))"
proof -
  let ?key = "\<lambda>(e :: int, w :: string, c :: int). (e, - c, w)"
  let ?zs = "filter (\<lambda>(e, w, c). e = i) (words_query rows)"
  have "sorted (map ?key (words_query rows))"
    by (simp add: words_query_def Let_def)
  then have "sorted_wrt (\<lambda>a b. ?key a \<le> ?key b) (words_query rows)"
    by (simp add: sorted_wrt_map)
  then have "sorted_wrt (\<lambda>a b. ?key a \<le> ?key b) ?zs"
    by (rule sorted_wrt_filter)
  then have "sorted_wrt (\<lambda>a b. snd (snd b) < snd (snd a)
      \<or> (snd (snd a) = snd (snd b) \<and> fst (snd a) \<le> fst (snd b))) ?zs"
    by (rule sorted_wrt_mono_rel [rotated]) (auto simp: less_eq_prod_def)
  then show ?thesis by (simp add: sorted_wrt_map case_prod_unfold)
qed

lemma words_query_group_spec:
  "word_counts_spec (entrant_words rows i)
     (map (\<lambda>(e, w, c). (w, c)) (filter (\<lambda>(e, w, c). e = i) (words_query rows)))"
  unfolding word_counts_spec_def
  using words_query_group_set words_query_group_distinct words_query_group_sorted
  by (intro conjI)

lemma api_words_lookup:
  assumes "list_all valid_row (ratings d)"
  shows "\<exists>out. api_words d = Inr out \<and> distinct (map fst out)
     \<and> set (map fst out) \<subseteq> set ENTRANTS
     \<and> (\<forall>i. 0 \<le> i \<and> i < int (length ENTRANTS) \<longrightarrow>
          map_of out (ENTRANTS ! nat i)
            = (if filter (\<lambda>(e, w, c). e = i) (words_query (ratings d)) = [] then None
               else Some (map (\<lambda>(e, w, c). (w, c))
                      (filter (\<lambda>(e, w, c). e = i) (words_query (ratings d))))))"
proof -
  let ?xs = "words_query (ratings d)"
  let ?h = "\<lambda>(e, w, c). (ENTRANTS ! nat e, (w, c))"
  let ?step = "\<lambda>acc (k, v). setdefault_append acc k v"
  let ?out = "foldl ?step [] (map ?h ?xs)"
  have "foldl (\<lambda>acc (e, w, c). setdefault_append acc (ENTRANTS ! nat e) (w, c)) [] ?xs = ?out"
    by (simp add: foldl_map case_prod_unfold)
  with api_words_valid [OF assms] have out: "api_words d = Inr ?out" by simp
  have valid: "\<And>e w c. (e, w, c) \<in> set ?xs \<Longrightarrow> 0 \<le> e \<and> e < int (length ENTRANTS)"
    using words_query_valid [OF assms] by blast
  have dist: "distinct (map fst ?out)" by (simp add: distinct_fold_setdefault)
  have look: "\<And>k. map_of ?out k =
      (if filter (\<lambda>x. fst x = k) (map ?h ?xs) = [] then None
       else Some (map snd (filter (\<lambda>x. fst x = k) (map ?h ?xs))))"
    by (simp add: map_of_fold_setdefault)
  have keys: "set (map fst ?out) \<subseteq> set ENTRANTS"
  proof
    fix k assume "k \<in> set (map fst ?out)"
    then have "map_of ?out k \<noteq> None" by (simp add: map_of_eq_None_iff)
    with look [of k] have "filter (\<lambda>x. fst x = k) (map ?h ?xs) \<noteq> []" by (simp split: if_splits)
    then obtain x where "x \<in> set ?xs" "fst (?h x) = k"
      by (auto simp: filter_empty_conv)
    moreover obtain e w c where "x = (e, w, c)" using prod_cases3 by blast
    ultimately have "(e, w, c) \<in> set ?xs" "k = ENTRANTS ! nat e" by simp_all
    then have k: "k = ENTRANTS ! nat e" and "0 \<le> e \<and> e < int (length ENTRANTS)"
      using valid [of e w c] by simp_all
    then have "nat e < length ENTRANTS" by linarith
    with k show "k \<in> set ENTRANTS" by (simp only: nth_mem)
  qed
  have grp: "\<And>i. 0 \<le> i \<and> i < int (length ENTRANTS) \<Longrightarrow>
      filter (\<lambda>x. fst x = ENTRANTS ! nat i) (map ?h ?xs)
        = map ?h (filter (\<lambda>(e, w, c). e = i) ?xs)"
  proof -
    fix i assume i: "0 \<le> i \<and> i < int (length ENTRANTS)"
    have "filter (\<lambda>x. fst x = ENTRANTS ! nat i) (map ?h ?xs)
        = map ?h (filter (\<lambda>x. fst (?h x) = ENTRANTS ! nat i) ?xs)"
      by (simp add: filter_map comp_def)
    also have "filter (\<lambda>x. fst (?h x) = ENTRANTS ! nat i) ?xs
        = filter (\<lambda>(e, w, c). e = i) ?xs"
    proof (rule filter_cong [OF refl])
      fix x assume "x \<in> set ?xs"
      moreover obtain e w c where "x = (e, w, c)" using prod_cases3 by blast
      ultimately have x: "x = (e, w, c)" "(e, w, c) \<in> set ?xs" by simp_all
      with valid [of e w c] i have "ENTRANTS ! nat e = ENTRANTS ! nat i \<longleftrightarrow> e = i"
        using entrant_name_inj by blast
      with x show "(fst (?h x) = ENTRANTS ! nat i) = (case x of (e, w, c) \<Rightarrow> e = i)" by simp
    qed
    finally show "filter (\<lambda>x. fst x = ENTRANTS ! nat i) (map ?h ?xs)
        = map ?h (filter (\<lambda>(e, w, c). e = i) ?xs)" .
  qed
  have "\<forall>i. 0 \<le> i \<and> i < int (length ENTRANTS) \<longrightarrow>
          map_of ?out (ENTRANTS ! nat i)
            = (if filter (\<lambda>(e, w, c). e = i) ?xs = [] then None
               else Some (map (\<lambda>(e, w, c). (w, c)) (filter (\<lambda>(e, w, c). e = i) ?xs)))"
  proof (intro allI impI)
    fix i assume i: "0 \<le> i \<and> i < int (length ENTRANTS)"
    let ?zs = "filter (\<lambda>(e, w, c). e = i) ?xs"
    have "map_of ?out (ENTRANTS ! nat i)
        = (if map ?h ?zs = [] then None else Some (map snd (map ?h ?zs)))"
      by (simp only: look grp [OF i])
    moreover have "map snd (map ?h ?zs) = map (\<lambda>(e, w, c). (w, c)) ?zs"
      by (simp add: comp_def case_prod_unfold)
    ultimately show "map_of ?out (ENTRANTS ! nat i)
        = (if ?zs = [] then None else Some (map (\<lambda>(e, w, c). (w, c)) ?zs))"
      by (simp only: map_is_Nil_conv)
  qed
  with out dist keys show ?thesis by blast
qed

text \<open>C6 as stated fails. Two devices describe entrant 0 by the same letter, once in
  upper case (code 0xC9) and once in lower case (code 0xE9); the state is one the
  application reaches, and the word counts hold two words of count 1 instead of one word
  of count 2: \<^verbatim>\<open>LOWER\<close> leaves letters outside A to Z as they are.\<close>

theorem word_counts_case_counterexample:
  "reachable accent_example
   \<and> map one_word (ratings accent_example) = [Some [CHR 0xC9], Some [CHR 0xE9]]
   \<and> api_words accent_example = Inr [(''Javier'', [([CHR 0xC9], 1), ([CHR 0xE9], 1)])]"
proof -
  have "reachable accent_example"
    unfolding accent_example_def by (rule reachable_submit_all [OF reachable.start])
  moreover have "map one_word (ratings accent_example) = [Some [CHR 0xC9], Some [CHR 0xE9]]"
    by code_simp
  moreover have "api_words accent_example
      = Inr [(''Javier'', [([CHR 0xC9], 1), ([CHR 0xE9], 1)])]"
    by code_simp
  ultimately show ?thesis by simp
qed

text \<open>
  C6, amended. For every table whose rows carry valid entrant indices (every table the
  application reaches), the word counts are a mapping keyed by entrant names. An entrant
  none of whose rows has a one_word that is non-empty after trimming blanks is absent
  from it. Any other entrant is mapped to a non-empty list that holds each of its
  distinct words once, where words are compared after trimming blanks and folding the
  letters A to Z to lower case (no other letter is folded), with the number of its rows
  carrying that word, ordered by count descending and then by word ascending. The values
  Good, good and Bad give \<open>[(good, 2), (bad, 1)]\<close>.
\<close>

theorem word_counts_per_entrant:
  assumes "\<forall>r \<in> set (ratings d). 0 \<le> entrant_index r \<and> entrant_index r < int (length ENTRANTS)"
  shows "\<exists>out. api_words d = Inr out
     \<and> distinct (map fst out)
     \<and> set (map fst out) \<subseteq> set ENTRANTS
     \<and> (\<forall>i. 0 \<le> i \<and> i < int (length ENTRANTS) \<longrightarrow>
          (case map_of out (ENTRANTS ! nat i) of
             None \<Rightarrow> entrant_words (ratings d) i = []
           | Some ws \<Rightarrow> ws \<noteq> [] \<and> word_counts_spec (entrant_words (ratings d) i) ws))"
proof -
  from assms have "list_all valid_row (ratings d)"
    by (simp add: list_all_iff valid_row_def)
  from api_words_lookup [OF this] obtain out where out: "api_words d = Inr out"
    and dist: "distinct (map fst out)" and keys: "set (map fst out) \<subseteq> set ENTRANTS"
    and look: "\<And>i. 0 \<le> i \<and> i < int (length ENTRANTS) \<Longrightarrow>
          map_of out (ENTRANTS ! nat i)
            = (if filter (\<lambda>(e, w, c). e = i) (words_query (ratings d)) = [] then None
               else Some (map (\<lambda>(e, w, c). (w, c))
                      (filter (\<lambda>(e, w, c). e = i) (words_query (ratings d)))))"
    by blast
  have "\<forall>i. 0 \<le> i \<and> i < int (length ENTRANTS) \<longrightarrow>
          (case map_of out (ENTRANTS ! nat i) of
             None \<Rightarrow> entrant_words (ratings d) i = []
           | Some ws \<Rightarrow> ws \<noteq> [] \<and> word_counts_spec (entrant_words (ratings d) i) ws)"
  proof (intro allI impI)
    fix i assume i: "0 \<le> i \<and> i < int (length ENTRANTS)"
    let ?zs = "filter (\<lambda>(e, w, c). e = i) (words_query (ratings d))"
    show "case map_of out (ENTRANTS ! nat i) of
             None \<Rightarrow> entrant_words (ratings d) i = []
           | Some ws \<Rightarrow> ws \<noteq> [] \<and> word_counts_spec (entrant_words (ratings d) i) ws"
    proof (cases "?zs = []")
      case True
      with words_query_group_set [of i "ratings d"]
      have "entrant_words (ratings d) i = []" by simp
      with True look [OF i] show ?thesis by simp
    next
      case False
      with look [OF i] words_query_group_spec [of "ratings d" i] show ?thesis by simp
    qed
  qed
  with out dist keys show ?thesis by blast
qed

theorem word_counts_per_entrant_witness:
  "list_all valid_row (ratings words_example)
   \<and> api_words words_example
       = Inr [(''Javier'', [(''good'', 2), (''bad'', 1)]), (''Bernie'', [(''yum'', 1)])]
   \<and> distinct (map fst
         [(''Javier'', [(''good'', 2 :: int), (''bad'', 1)]), (''Bernie'', [(''yum'', 1)])])
   \<and> entrant_words (ratings words_example) 0 = [''good'', ''good'', ''bad'']
   \<and> entrant_words (ratings words_example) 2 = []
   \<and> entrant_words (ratings words_example) 5 = [''yum'']"
proof -
  have h: "\<forall>r \<in> set (ratings words_example).
      0 \<le> entrant_index r \<and> entrant_index r < int (length ENTRANTS)"
    by (simp add: words_example_def ENTRANTS_def)
  then have v: "list_all valid_row (ratings words_example)"
    by (simp add: list_all_iff valid_row_def)
  have ev: "api_words words_example
      = Inr [(''Javier'', [(''good'', 2), (''bad'', 1)]), (''Bernie'', [(''yum'', 1)])]"
    by code_simp
  have w: "entrant_words (ratings words_example) 0 = [''good'', ''good'', ''bad'']"
    "entrant_words (ratings words_example) 2 = []"
    "entrant_words (ratings words_example) 5 = [''yum'']"
    by code_simp+
  from word_counts_per_entrant [OF h] obtain out
    where "api_words words_example = Inr out" and "distinct (map fst out)"
    by blast
  with ev have "distinct (map fst
      [(''Javier'', [(''good'', 2 :: int), (''bad'', 1)]), (''Bernie'', [(''yum'', 1)])])"
    by simp
  with v ev w show ?thesis by simp
qed

end
